theory Spec2Isabelle
  imports Complex_Main "HOL-Library.Sublist" "HOL-Library.Option_ord" "HOL-Library.Multiset"
begin

section \<open>Common machine-level notions\<close>

text \<open>
  Token ids are \<^verbatim>\<open>int32_t\<close> values; the code only compares them and range-checks them,
  so they are integers here. Container sizes are \<^verbatim>\<open>size_t\<close> values, modelled by the
  length of the list. Where the source converts a \<^verbatim>\<open>size_t\<close> into an \<^verbatim>\<open>int\<close> or back,
  the conversion is written out: it wraps modulo \<open>2^32\<close> (two's complement) resp.
  modulo \<open>2^64\<close>. Counters of type \<^verbatim>\<open>int\<close> that the code increments are integers;
  their signed overflow is undefined behaviour in C++ and is not a branch of the model.
\<close>

type_synonym token = int

definition int_of_size_t :: "nat \<Rightarrow> int" where
  "int_of_size_t n =
     (let m = int n mod 2 ^ 32 in if m < 2 ^ 31 then m else m - 2 ^ 32)"

definition size_t_of_int :: "int \<Rightarrow> nat" where
  "size_t_of_int i = nat (i mod 2 ^ 64)"

text \<open>
  The scan that appears three times in the source (\<^verbatim>\<open>KVCacheManager::check_reusable\<close>,
  \<^verbatim>\<open>PrefixCacheManager::find_prefix\<close> and the reuse computation of
  \<^verbatim>\<open>LLMEngine::generate_stream\<close>):
  \<^verbatim>\<open>for (i = 0; i < min_len; i++) { if (a[i] == b[i]) cnt++; else break; }\<close>
  Every caller passes \<open>min_len = min (length a) (length b)\<close>, so both reads are in range.
\<close>

function match_loop :: "token list \<Rightarrow> token list \<Rightarrow> nat \<Rightarrow> nat \<Rightarrow> nat \<Rightarrow> nat" where
  "match_loop a b min_len i cnt =
     (if i < min_len then
        (if a ! i = b ! i then match_loop a b min_len (Suc i) (Suc cnt) else cnt)
      else cnt)"
  by pat_completeness auto
termination
  by (relation "measure (\<lambda>(a, b, min_len, i, cnt). min_len - i)") auto

declare match_loop.simps [simp del]

section \<open>KVCacheManager (kv\_cache.cpp)\<close>

record KVCacheManager =
  kv_token_history :: "token list"
  kv_cached_tokens :: int

definition check_reusable :: "KVCacheManager \<Rightarrow> token list \<Rightarrow> int" where
  "check_reusable c new_tokens =
     (let min_len = min (length new_tokens) (length (kv_token_history c));
          reusable = int (match_loop new_tokens (kv_token_history c) min_len 0 0)
      in min reusable (kv_cached_tokens c))"

definition update :: "KVCacheManager \<Rightarrow> token list \<Rightarrow> KVCacheManager" where
  "update c toks =
     c\<lparr>kv_token_history := toks, kv_cached_tokens := int_of_size_t (length toks)\<rparr>"

definition clear_kv :: "KVCacheManager \<Rightarrow> KVCacheManager" where
  "clear_kv c = c\<lparr>kv_token_history := [], kv_cached_tokens := 0\<rparr>"

definition truncate_kv :: "KVCacheManager \<Rightarrow> int \<Rightarrow> KVCacheManager" where
  "truncate_kv c len =
     (let len' = (if len < 0 then 0 else len)
      in if len' < kv_cached_tokens c
         then c\<lparr>kv_token_history :=
                  take (nat len') (kv_token_history c)
                  @ replicate (nat len' - length (kv_token_history c)) 0,
                kv_cached_tokens := len'\<rparr>
         else c)"

section \<open>PrefixCacheManager (kv\_cache.cpp)\<close>

text \<open>
  \<^verbatim>\<open>std::chrono::system_clock::now()\<close> is an input of the model: every operation that
  reads the clock takes the value read as its argument \<open>now\<close>.
\<close>

record PrefixEntry =
  tokens :: "token list"
  cache_data :: "nat list"
  last_access_time :: int
  access_count :: int

record PrefixCacheManager =
  max_entries :: nat
  entries :: "PrefixEntry list"

definition PrefixCacheManager_new :: "nat \<Rightarrow> PrefixCacheManager" where
  "PrefixCacheManager_new n = \<lparr>max_entries = n, entries = []\<rparr>"

text \<open>
  The loop of \<^verbatim>\<open>find_prefix\<close> over the entries; \<open>i\<close> is the index of the entry at the
  head of the remaining list, \<open>best_match\<close> is the \<^verbatim>\<open>int\<close> and \<open>best_match_len\<close> the
  \<^verbatim>\<open>size_t\<close> of the source.
\<close>

fun find_prefix_loop :: "token list \<Rightarrow> PrefixEntry list \<Rightarrow> nat \<Rightarrow> int \<Rightarrow> nat \<Rightarrow> int" where
  "find_prefix_loop toks [] i best_match best_match_len = best_match"
| "find_prefix_loop toks (entry # rest) i best_match best_match_len =
     (let min_len = min (length toks) (length (tokens entry));
          match_len = match_loop toks (tokens entry) min_len 0 0
      in if match_len = length (tokens entry) \<and> match_len > best_match_len
         then find_prefix_loop toks rest (Suc i) (int_of_size_t i) match_len
         else find_prefix_loop toks rest (Suc i) best_match best_match_len)"

definition find_prefix :: "PrefixCacheManager \<Rightarrow> token list \<Rightarrow> int" where
  "find_prefix c toks = find_prefix_loop toks (entries c) 0 (- 1) 0"

text \<open>
  \<^verbatim>\<open>std::min_element\<close> with the comparator \<^verbatim>\<open>a.last_access_time < b.last_access_time\<close>:
  the standard's loop keeps the first element that no later one is smaller than.
  The result is the position of the returned iterator.
\<close>

fun min_element_loop :: "int list \<Rightarrow> nat \<Rightarrow> nat \<Rightarrow> int \<Rightarrow> nat" where
  "min_element_loop [] i smallest sv = smallest"
| "min_element_loop (x # xs) i smallest sv =
     (if x < sv then min_element_loop xs (Suc i) i x
      else min_element_loop xs (Suc i) smallest sv)"

definition min_element :: "int list \<Rightarrow> nat" where
  "min_element xs = (case xs of [] \<Rightarrow> 0 | x # rest \<Rightarrow> min_element_loop rest 1 0 x)"

definition erase :: "nat \<Rightarrow> 'a list \<Rightarrow> 'a list" where
  "erase k xs = take k xs @ drop (Suc k) xs"

definition evict_lru :: "PrefixCacheManager \<Rightarrow> PrefixCacheManager" where
  "evict_lru c =
     (if entries c = [] then c
      else c\<lparr>entries := erase (min_element (map last_access_time (entries c))) (entries c)\<rparr>)"

definition add_prefix ::
  "PrefixCacheManager \<Rightarrow> token list \<Rightarrow> nat list \<Rightarrow> int \<Rightarrow> PrefixCacheManager" where
  "add_prefix c toks data now =
     (let existing = find_prefix c toks
      in if existing \<ge> 0 \<and> length (tokens (entries c ! nat existing)) = length toks
         then c\<lparr>entries := (entries c)[nat existing :=
                  (entries c ! nat existing)
                    \<lparr>cache_data := data, last_access_time := now,
                     access_count := access_count (entries c ! nat existing) + 1\<rparr>]\<rparr>
         else
           let c1 = (if length (entries c) \<ge> max_entries c then evict_lru c else c)
           in c1\<lparr>entries := entries c1 @
                  [\<lparr>tokens = toks, cache_data = data, last_access_time = now,
                    access_count = 1\<rparr>]\<rparr>)"

text \<open>
  \<^verbatim>\<open>get_entry\<close> returns a pointer into the vector or \<^verbatim>\<open>nullptr\<close>. The pointer is the
  position it points to (\<open>Some k\<close> for \<^verbatim>\<open>&entries_[k]\<close>), \<^verbatim>\<open>nullptr\<close> is \<open>None\<close>.
  The subscript \<^verbatim>\<open>entries_[index]\<close> is a checked read here: a read outside the vector
  is the result \<open>Inl OutOfBounds\<close>.
\<close>

datatype access_error = OutOfBounds

definition vector_at :: "'a list \<Rightarrow> nat \<Rightarrow> access_error + 'a" where
  "vector_at xs k = (if k < length xs then Inr (xs ! k) else Inl OutOfBounds)"

definition get_entry ::
  "PrefixCacheManager \<Rightarrow> int \<Rightarrow> int \<Rightarrow> access_error + (nat option \<times> PrefixCacheManager)" where
  "get_entry c index now =
     (if index < 0 \<or> index \<ge> int_of_size_t (length (entries c)) then Inr (None, c)
      else case vector_at (entries c) (size_t_of_int index) of
             Inl e \<Rightarrow> Inl e
           | Inr entry \<Rightarrow>
               Inr (Some (size_t_of_int index),
                    c\<lparr>entries := (entries c)[size_t_of_int index :=
                         entry\<lparr>last_access_time := now,
                               access_count := access_count entry + 1\<rparr>]\<rparr>))"

text \<open>A sequence of \<^verbatim>\<open>add_prefix\<close> calls, each with its arguments and the clock value read.\<close>

definition add_all ::
  "PrefixCacheManager \<Rightarrow> (token list \<times> nat list \<times> int) list \<Rightarrow> PrefixCacheManager" where
  "add_all c calls = fold (\<lambda>(toks, data, now) c'. add_prefix c' toks data now) calls c"

text \<open>\<^verbatim>\<open>PrefixCacheManager::clear\<close>.\<close>

definition clear_entries :: "PrefixCacheManager \<Rightarrow> PrefixCacheManager" where
  "clear_entries c = c\<lparr>entries := []\<rparr>"

text \<open>
  The cache states a program can hold are those the public operations produce from a
  constructed manager: a sequence of calls of \<^verbatim>\<open>add_prefix\<close>, \<^verbatim>\<open>get_entry\<close> and \<^verbatim>\<open>clear\<close>,
  each with its arguments and the clock value it reads.
\<close>

datatype cache_call =
    AddPrefix "token list" "nat list" int
  | GetEntry int int
  | Clear

fun apply_call :: "PrefixCacheManager \<Rightarrow> cache_call \<Rightarrow> PrefixCacheManager" where
  "apply_call c (AddPrefix toks data now) = add_prefix c toks data now"
| "apply_call c (GetEntry index now) =
     (case get_entry c index now of Inr (ptr, c') \<Rightarrow> c' | Inl e \<Rightarrow> c)"
| "apply_call c Clear = clear_entries c"

definition run_calls :: "PrefixCacheManager \<Rightarrow> cache_call list \<Rightarrow> PrefixCacheManager" where
  "run_calls c calls = fold (\<lambda>call c'. apply_call c' call) calls c"

text \<open>
  The sentence of the specification about \<^verbatim>\<open>find_prefix\<close>, in its own words: among
  the entries whose tokens are a prefix of \<open>T\<close> the result is the index of the longest,
  ties going to the most recent \<open>last_access\<close>; \<open>-1\<close> if there is none.
\<close>

definition find_prefix_spec :: "PrefixEntry list \<Rightarrow> token list \<Rightarrow> int \<Rightarrow> bool" where
  "find_prefix_spec es T r \<longleftrightarrow>
     (if \<exists>j < length es. prefix (tokens (es ! j)) T
      then \<exists>i < length es. r = int i \<and> prefix (tokens (es ! i)) T \<and>
             (\<forall>j < length es. prefix (tokens (es ! j)) T \<longrightarrow>
                length (tokens (es ! j)) < length (tokens (es ! i)) \<or>
                (length (tokens (es ! j)) = length (tokens (es ! i)) \<and>
                 last_access_time (es ! j) \<le> last_access_time (es ! i)))
      else r = - 1)"

text \<open>
  The same sentence restricted to the entries with a non-empty token sequence: among
  the entries whose tokens are non-empty and a prefix of \<open>T\<close> the result is the index of
  the longest, ties going to the most recent \<open>last_access\<close>; \<open>-1\<close> if there is none.
\<close>

definition find_prefix_spec_nonempty :: "PrefixEntry list \<Rightarrow> token list \<Rightarrow> int \<Rightarrow> bool" where
  "find_prefix_spec_nonempty es T r \<longleftrightarrow>
     (if \<exists>j < length es. tokens (es ! j) \<noteq> [] \<and> prefix (tokens (es ! j)) T
      then \<exists>i < length es. r = int i \<and> tokens (es ! i) \<noteq> [] \<and> prefix (tokens (es ! i)) T \<and>
             (\<forall>j < length es. tokens (es ! j) \<noteq> [] \<and> prefix (tokens (es ! j)) T \<longrightarrow>
                length (tokens (es ! j)) < length (tokens (es ! i)) \<or>
                (length (tokens (es ! j)) = length (tokens (es ! i)) \<and>
                 last_access_time (es ! j) \<le> last_access_time (es ! i)))
      else r = - 1)"

text \<open>
  What the loop of \<^verbatim>\<open>find_prefix\<close> selects from: entry \<open>j\<close> is a candidate when its
  token sequence is non-empty and a prefix of \<open>T\<close>; \<open>first_longest es T n i\<close> says that
  \<open>i\<close> is a longest candidate among the first \<open>n\<close> entries and the first of that length.
\<close>

definition candidate :: "PrefixEntry list \<Rightarrow> token list \<Rightarrow> nat \<Rightarrow> bool" where
  "candidate es T j \<longleftrightarrow> j < length es \<and> tokens (es ! j) \<noteq> [] \<and> prefix (tokens (es ! j)) T"

definition first_longest :: "PrefixEntry list \<Rightarrow> token list \<Rightarrow> nat \<Rightarrow> nat \<Rightarrow> bool" where
  "first_longest es T n i \<longleftrightarrow>
     i < n \<and> candidate es T i \<and>
     (\<forall>j < n. candidate es T j \<longrightarrow> length (tokens (es ! j)) \<le> length (tokens (es ! i))) \<and>
     (\<forall>j < i. candidate es T j \<longrightarrow> length (tokens (es ! j)) < length (tokens (es ! i)))"

text \<open>
  What the operations maintain: no two entries hold the same non-empty token sequence,
  and the number of entries stays within the capacity (within 1 for capacity 0).
\<close>

definition unique_nonempty :: "PrefixEntry list \<Rightarrow> bool" where
  "unique_nonempty es \<longleftrightarrow> distinct (filter (\<lambda>t. t \<noteq> []) (map tokens es))"

definition cache_inv :: "PrefixCacheManager \<Rightarrow> bool" where
  "cache_inv c \<longleftrightarrow>
     unique_nonempty (entries c) \<and> length (entries c) \<le> max 1 (max_entries c) \<and>
     max_entries c < 2 ^ 31"

section \<open>LLMEngine (inference\_engine.cpp)\<close>

text \<open>
  The engine drives three collaborators that are not part of this repository's logic:
  the llama backend, the tokenizer built on it, and the clock. The backend is modelled
  by the sequence of calls the engine makes on the llama context, oldest first; what
  the collaborators return is an input of the model (\<open>gen_env\<close> below). Floating-point
  values (type \<open>'f\<close>) are carried, never computed: the two float statistics are inputs.
\<close>

datatype backend_call =
    KvSeqRm int  \<comment> \<open>\<^verbatim>\<open>llama_kv_cache_seq_rm(ctx, 0, p0, -1)\<close>\<close>
  | KvClear  \<comment> \<open>\<^verbatim>\<open>llama_kv_cache_clear(ctx)\<close>\<close>
  | Decode "(token \<times> int \<times> bool) list"
      \<comment> \<open>\<^verbatim>\<open>llama_decode(ctx, batch)\<close>: token, position and logits flag of each batch slot\<close>

record 'f EngineStats =
  tokens_generated :: int
  generation_time_ms :: 'f
  tokens_per_second :: 'f
  prompt_tokens :: int
  context_tokens :: int

text \<open>
  \<open>initialized\<close> is \<^verbatim>\<open>pimpl_ && pimpl_->model && pimpl_->ctx\<close>; the constructor either
  sets both pointers or throws, so it also stands for \<^verbatim>\<open>pimpl_->ctx\<close> alone.
  \<open>n_ctx\<close> is \<^verbatim>\<open>config.n_ctx\<close>.
\<close>

record 'f LLMEngine =
  initialized :: bool
  n_ctx :: int
  token_history :: "token list"
  n_past :: int
  backend :: "backend_call list"
  stop_flag :: bool
  stats :: "'f EngineStats"

text \<open>
  Of \<^verbatim>\<open>GenerationConfig\<close> the loop reads \<^verbatim>\<open>max_tokens\<close> and \<^verbatim>\<open>stop_sequences\<close>; the other
  fields only configure the sampler, whose result is an input here.
\<close>

record GenerationConfig =
  max_tokens :: int
  stop_sequences :: "string list"

text \<open>
  What one iteration of the generation loop reads from outside: whether
  \<^verbatim>\<open>stop_generation()\<close> has run since the previous poll of the flag, the token the
  sampler returns, and whether \<^verbatim>\<open>llama_decode\<close> accepts the single-token batch.
\<close>

record step_env =
  stop_requested :: bool
  sampled :: token
  decode_ok :: bool

record 'f gen_env =
  prompt_toks :: "token list"  \<comment> \<open>\<^verbatim>\<open>tokenizer.encode(format_messages(messages), false, true)\<close>\<close>
  prompt_decode_ok :: bool  \<comment> \<open>\<^verbatim>\<open>llama_decode\<close> of the prompt batch returns 0\<close>
  steps :: "nat \<Rightarrow> step_env"
  is_eos_token :: "token \<Rightarrow> bool"
  decode_token :: "token \<Rightarrow> string"
  duration_ms :: 'f  \<comment> \<open>\<^verbatim>\<open>duration.count()\<close> as a float\<close>
  tokens_per_sec :: "int \<Rightarrow> 'f \<Rightarrow> 'f"
    \<comment> \<open>\<^verbatim>\<open>tokens_generated / (generation_time_ms / 1000.0f)\<close>\<close>

datatype gen_error =
    NotInitialized  \<comment> \<open>\<^verbatim>\<open>runtime_error("Engine not initialized")\<close>\<close>
  | ContextOverflow  \<comment> \<open>\<^verbatim>\<open>runtime_error("Prompt too long for context window")\<close>\<close>
  | DecodeError  \<comment> \<open>\<^verbatim>\<open>runtime_error("Failed to decode prompt")\<close>\<close>

text \<open>\<^verbatim>\<open>std::string::find\<close>: the first position at which the pattern occurs.\<close>

fun str_find :: "string \<Rightarrow> string \<Rightarrow> nat option" where
  "str_find [] pat = (if pat = [] then Some 0 else None)"
| "str_find (c # cs) pat =
     (if prefix pat (c # cs) then Some 0 else map_option Suc (str_find cs pat))"

text \<open>
  The scan over the stop sequences: the first one found in \<open>result\<close> truncates it at the
  first occurrence and sets \<^verbatim>\<open>should_stop\<close> (\<open>Some\<close> of the truncated text).
\<close>

fun check_stop :: "string list \<Rightarrow> string \<Rightarrow> string option" where
  "check_stop [] result = None"
| "check_stop (stop_seq # rest) result =
     (case str_find result stop_seq of
        Some pos \<Rightarrow> Some (take pos result)
      | None \<Rightarrow> check_stop rest result)"

text \<open>
  The locals of the loop together with the engine. \<open>callbacks\<close> is the sequence of
  calls made to the stream callback.
\<close>

record 'f loop_state =
  eng :: "'f LLMEngine"
  result :: string
  generated_tokens :: "token list"
  callbacks :: "(string \<times> bool) list"

datatype 'a step_outcome = Continue 'a | Break 'a

definition loop_body ::
  "'f gen_env \<Rightarrow> GenerationConfig \<Rightarrow> bool \<Rightarrow> nat \<Rightarrow> 'f loop_state \<Rightarrow> 'f loop_state step_outcome"
  where
  "loop_body env config has_callback i s =
     (let flag = stop_flag (eng s) \<or> stop_requested (steps env i);
          s0 = s\<lparr>eng := (eng s)\<lparr>stop_flag := flag\<rparr>\<rparr>
      in if flag then Break s0
         else
           let new_token = sampled (steps env i)
           in if is_eos_token env new_token then Break s0
              else
                let token_text = decode_token env new_token;
                    result1 = result s0 @ token_text
                in case check_stop (stop_sequences config) result1 of
                     Some result2 \<Rightarrow> Break (s0\<lparr>result := result2\<rparr>)
                   | None \<Rightarrow>
                       let s1 = s0\<lparr>
                             eng := (eng s0)\<lparr>
                               token_history := token_history (eng s0) @ [new_token],
                               backend := backend (eng s0) @
                                 [Decode [(new_token, n_past (eng s0), True)]]\<rparr>,
                             result := result1,
                             generated_tokens := generated_tokens s0 @ [new_token],
                             callbacks := (if has_callback
                                           then callbacks s0 @ [(token_text, False)]
                                           else callbacks s0)\<rparr>
                       in if \<not> decode_ok (steps env i) then Break s1
                          else Continue (s1\<lparr>eng := (eng s1)\<lparr>n_past := n_past (eng s1) + 1\<rparr>\<rparr>))"

text \<open>\<^verbatim>\<open>for (int i = 0; i < config.max_tokens; i++)\<close>, with \<open>k\<close> iterations left.\<close>

fun gen_loop ::
  "'f gen_env \<Rightarrow> GenerationConfig \<Rightarrow> bool \<Rightarrow> nat \<Rightarrow> nat \<Rightarrow> 'f loop_state \<Rightarrow> 'f loop_state" where
  "gen_loop env config has_callback 0 i s = s"
| "gen_loop env config has_callback (Suc k) i s =
     (case loop_body env config has_callback i s of
        Break s' \<Rightarrow> s'
      | Continue s' \<Rightarrow> gen_loop env config has_callback k (Suc i) s')"

text \<open>The prompt batch: the new tokens at consecutive positions, logits for the last.\<close>

definition prompt_batch :: "token list \<Rightarrow> int \<Rightarrow> (token \<times> int \<times> bool) list" where
  "prompt_batch new_tokens past =
     map (\<lambda>i. (new_tokens ! i, past + int i, Suc i = length new_tokens))
       [0 ..< length new_tokens]"

text \<open>
  The part of \<^verbatim>\<open>generate_stream\<close> after the prompt has been processed: the token
  history is replaced, the loop runs, the end callback is made and the statistics are
  written.
\<close>

definition generate_tail ::
  "'f gen_env \<Rightarrow> GenerationConfig \<Rightarrow> bool \<Rightarrow> 'f LLMEngine \<Rightarrow>
   (gen_error + string) \<times> 'f LLMEngine \<times> (string \<times> bool) list" where
  "generate_tail env config has_callback e =
     (let s0 = \<lparr>eng = e\<lparr>token_history := prompt_toks env\<rparr>, result = [],
                generated_tokens = [], callbacks = []\<rparr>;
          s1 = gen_loop env config has_callback (nat (max_tokens config)) 0 s0;
          cbs = (if has_callback then callbacks s1 @ [([], True)] else callbacks s1);
          generated = int_of_size_t (length (generated_tokens s1));
          st = (stats (eng s1))\<lparr>
                 tokens_generated := generated,
                 generation_time_ms := duration_ms env,
                 tokens_per_second := tokens_per_sec env generated (duration_ms env),
                 context_tokens := n_past (eng s1)\<rparr>
      in (Inr (result s1), (eng s1)\<lparr>stats := st\<rparr>, cbs))"

text \<open>
  \<^verbatim>\<open>generate_stream\<close>. The result is what the call returns or throws, the engine as the
  call leaves it, and the callback calls made. \<open>has_callback\<close> says whether the callback
  argument is non-empty. In every state the engine reaches \<open>n_past\<close> is non-negative, so
  \<^verbatim>\<open>tokens.begin() + n_past\<close> is \<open>drop (nat n_past)\<close>.
\<close>

definition generate_stream ::
  "'f gen_env \<Rightarrow> GenerationConfig \<Rightarrow> bool \<Rightarrow> 'f LLMEngine \<Rightarrow>
   (gen_error + string) \<times> 'f LLMEngine \<times> (string \<times> bool) list" where
  "generate_stream env config has_callback e =
     (if \<not> initialized e then (Inl NotInitialized, e, [])
      else
        let toks = prompt_toks env;
            e1 = e\<lparr>stop_flag := False\<rparr>;
            e2 = e1\<lparr>stats := (stats e1)\<lparr>prompt_tokens := int_of_size_t (length toks)\<rparr>\<rparr>
        in if length toks \<ge> size_t_of_int (n_ctx e2) then (Inl ContextOverflow, e2, [])
           else
             let n_reuse = int (match_loop toks (token_history e2)
                                  (min (length toks) (length (token_history e2))) 0 0);
                 e3 = (if n_reuse < n_past e2
                       then e2\<lparr>backend := backend e2 @ [KvSeqRm n_reuse], n_past := n_reuse\<rparr>
                       else e2)
             in if int_of_size_t (length toks) > n_past e3
                then
                  let new_tokens = drop (nat (n_past e3)) toks;
                      e4 = e3\<lparr>backend := backend e3 @
                              [Decode (prompt_batch new_tokens (n_past e3))]\<rparr>
                  in if \<not> prompt_decode_ok env then (Inl DecodeError, e4, [])
                     else generate_tail env config has_callback
                            (e4\<lparr>n_past := int_of_size_t (length toks)\<rparr>)
                else generate_tail env config has_callback e3)"

definition clear_cache :: "'f LLMEngine \<Rightarrow> 'f LLMEngine" where
  "clear_cache e =
     (if initialized e
      then e\<lparr>backend := backend e @ [KvClear], n_past := 0, token_history := []\<rparr>
      else e)"

subsection \<open>Session files\<close>

text \<open>
  A file is its sequence of bytes; the file system maps a path to the file there.
  \<^verbatim>\<open>save_session\<close> writes the raw \<^verbatim>\<open>size_t\<close> (8 bytes) and the raw \<^verbatim>\<open>int32_t\<close> array,
  least significant byte first.
\<close>

type_synonym byte = nat
type_synonym filesystem = "string \<Rightarrow> byte list option"

fun le_bytes :: "nat \<Rightarrow> nat \<Rightarrow> byte list" where
  "le_bytes 0 v = []"
| "le_bytes (Suc n) v = (v mod 256) # le_bytes n (v div 256)"

fun le_val :: "byte list \<Rightarrow> nat" where
  "le_val [] = 0"
| "le_val (b # bs) = b + 256 * le_val bs"

definition u64_bytes :: "nat \<Rightarrow> byte list" where
  "u64_bytes n = le_bytes 8 (n mod 2 ^ 64)"

definition i32_bytes :: "token \<Rightarrow> byte list" where
  "i32_bytes t = le_bytes 4 (nat (t mod 2 ^ 32))"

definition i32_of_bytes :: "byte list \<Rightarrow> token" where
  "i32_of_bytes bs = (let v = int (le_val bs) in if v < 2 ^ 31 then v else v - 2 ^ 32)"

fun tokens_of_bytes :: "byte list \<Rightarrow> token list" where
  "tokens_of_bytes (a # b # c # d # rest) = i32_of_bytes [a, b, c, d] # tokens_of_bytes rest"
| "tokens_of_bytes _ = []"

definition vector_resize :: "token list \<Rightarrow> nat \<Rightarrow> token list" where
  "vector_resize xs n = take n xs @ replicate (n - length xs) 0"

text \<open>
  \<open>writable\<close> says whether \<^verbatim>\<open>std::ofstream file(path, std::ios::binary)\<close> opens; the two
  writes are taken to succeed (their result is not checked by the code).
\<close>

definition save_session ::
  "'f LLMEngine \<Rightarrow> string \<Rightarrow> (string \<Rightarrow> bool) \<Rightarrow> filesystem \<Rightarrow> bool \<times> filesystem" where
  "save_session e path writable fs =
     (if \<not> initialized e then (False, fs)
      else if \<not> writable path then (False, fs)
      else (True, fs(path \<mapsto> u64_bytes (length (token_history e)) @
                                concat (map i32_bytes (token_history e)))))"

text \<open>
  \<^verbatim>\<open>load_session\<close>. When the file has fewer than 8 bytes the first read fails, \<^verbatim>\<open>size\<close>
  keeps an indeterminate value (the input \<open>garbage\<close>) and the second read does nothing.
  \<^verbatim>\<open>resize\<close> throws when the vector cannot grow to \<open>size\<close> elements (more than the
  input \<open>max_alloc\<close>). The second read overwrites the first bytes of the resized
  vector with the bytes the file still has.
\<close>

datatype session_error = AllocFailure

definition load_session ::
  "'f LLMEngine \<Rightarrow> string \<Rightarrow> filesystem \<Rightarrow> nat \<Rightarrow> nat \<Rightarrow> (session_error + bool) \<times> 'f LLMEngine"
  where
  "load_session e path fs garbage max_alloc =
     (if \<not> initialized e then (Inr False, e)
      else case fs path of
             None \<Rightarrow> (Inr False, e)
           | Some bytes \<Rightarrow>
               let ok = (8 \<le> length bytes);
                   size = (if ok then le_val (take 8 bytes) else garbage)
               in if size > max_alloc then (Inl AllocFailure, e)
                  else
                    let resized = vector_resize (token_history e) size;
                        data = (if ok then take ((size * 4) mod 2 ^ 64) (drop 8 bytes) else []);
                        buffer = data @ drop (length data) (concat (map i32_bytes resized));
                        e1 = e\<lparr>token_history := tokens_of_bytes buffer\<rparr>
                    in (Inr True, clear_cache e1))"

section \<open>Sampler (sampler.cpp)\<close>

text \<open>
  The sampler computes on \<^verbatim>\<open>float\<close> values. Their arithmetic is an input of the model:
  a record of the operations the code uses, on a type \<open>'f\<close> of which only the order is
  known. The order is linear, so the model covers the runs without NaN. What the C++
  library leaves open is an input as well: the order \<^verbatim>\<open>std::sort\<close> gives to elements
  with equal keys, and the draw of \<^verbatim>\<open>std::discrete_distribution\<close> from the Mersenne
  twister state (type \<open>'r\<close>).
\<close>

record 'f float_ops =
  fadd :: "'f \<Rightarrow> 'f \<Rightarrow> 'f"
  fsub :: "'f \<Rightarrow> 'f \<Rightarrow> 'f"
  fmul :: "'f \<Rightarrow> 'f \<Rightarrow> 'f"
  fdiv :: "'f \<Rightarrow> 'f \<Rightarrow> 'f"
  fexp :: "'f \<Rightarrow> 'f"
  float_of_int :: "int \<Rightarrow> 'f"
  fzero :: 'f  \<comment> \<open>\<^verbatim>\<open>0.0f\<close>\<close>
  fone :: 'f  \<comment> \<open>\<^verbatim>\<open>1.0f\<close>\<close>
  neg_inf :: 'f  \<comment> \<open>\<^verbatim>\<open>-std::numeric_limits<float>::infinity()\<close>\<close>

record ('f, 'r) sampler_env =
  ops :: "'f float_ops"
  std_sort :: "('f \<times> nat) list \<Rightarrow> ('f \<times> nat) list"
    \<comment> \<open>\<^verbatim>\<open>std::sort\<close> of (logit, index) pairs, descending by logit\<close>
  draw :: "'r \<Rightarrow> 'f list \<Rightarrow> nat \<times> 'r"
    \<comment> \<open>\<^verbatim>\<open>std::discrete_distribution<int32_t> dist(w, w + n); dist(rng_)\<close>\<close>

record 'f SamplerConfig =
  temperature :: 'f
  top_p :: 'f
  top_k :: int
  repeat_penalty :: 'f
  repeat_last_n :: int
  frequency_penalty :: 'f
  presence_penalty :: 'f
  seed :: int

record ('f, 'r) Sampler =
  sampler_config :: "'f SamplerConfig"
  rng :: 'r

text \<open>
  A \<^verbatim>\<open>float* logits\<close> with its \<^verbatim>\<open>int vocab_size\<close> is the list of the \<open>vocab_size\<close> floats
  it designates; each stage maps the array before to the array after.
\<close>

definition apply_temperature :: "'f::linorder float_ops \<Rightarrow> 'f SamplerConfig \<Rightarrow> 'f list \<Rightarrow> 'f list"
  where
  "apply_temperature fo cfg logits =
     (if temperature cfg \<le> fzero fo then logits
      else map (\<lambda>x. fdiv fo x (temperature cfg)) logits)"

definition penalize_token :: "'f::linorder float_ops \<Rightarrow> 'f \<Rightarrow> token \<Rightarrow> 'f list \<Rightarrow> 'f list" where
  "penalize_token fo penalty tok logits =
     (if tok < 0 \<or> tok \<ge> int (length logits) then logits
      else logits[nat tok :=
             (if logits ! nat tok > fzero fo then fdiv fo (logits ! nat tok) penalty
              else fmul fo (logits ! nat tok) penalty)])"

definition subtract_penalties ::
  "'f::linorder float_ops \<Rightarrow> 'f SamplerConfig \<Rightarrow> int \<Rightarrow> token \<Rightarrow> 'f list \<Rightarrow> 'f list" where
  "subtract_penalties fo cfg cnt tok logits =
     (if tok < 0 \<or> tok \<ge> int (length logits) then logits
      else logits[nat tok :=
             fsub fo (fsub fo (logits ! nat tok)
                        (fmul fo (frequency_penalty cfg) (float_of_int fo cnt)))
                     (presence_penalty cfg)])"

text \<open>The tokens at positions \<^verbatim>\<open>start .. (int)last_tokens.size() - 1\<close>.\<close>

definition penalty_window :: "int \<Rightarrow> token list \<Rightarrow> token list" where
  "penalty_window last_n last_tokens =
     (let n = int_of_size_t (length last_tokens);
          start = max 0 (n - last_n)
      in map (\<lambda>i. last_tokens ! i) [nat start ..< nat n])"

text \<open>
  The second loop runs over an \<^verbatim>\<open>unordered_map\<close> from token to count, in an order the
  library chooses; its steps write distinct positions, so the order does not matter
  and the model takes the tokens in order of first occurrence.
\<close>

definition apply_repetition_penalty ::
  "'f::linorder float_ops \<Rightarrow> 'f SamplerConfig \<Rightarrow> 'f list \<Rightarrow> token list \<Rightarrow> 'f list" where
  "apply_repetition_penalty fo cfg logits last_tokens =
     (if repeat_penalty cfg = fone fo \<or> last_tokens = [] then logits
      else
        let window = penalty_window (repeat_last_n cfg) last_tokens;
            penalized = fold (penalize_token fo (repeat_penalty cfg)) window logits
        in if frequency_penalty cfg \<noteq> fzero fo \<or> presence_penalty cfg \<noteq> fzero fo
           then fold (\<lambda>tok. subtract_penalties fo cfg (int (count_list window tok)) tok)
                  (remdups window) penalized
           else penalized)"

text \<open>
  \<^verbatim>\<open>std::partial_sort\<close> with \<^verbatim>\<open>std::greater\<close> puts the \<open>top_k\<close> largest values first, in
  descending order; the threshold read at position \<open>top_k - 1\<close> is the \<open>top_k\<close>-th
  largest value.
\<close>

definition apply_top_k :: "'f::linorder float_ops \<Rightarrow> 'f SamplerConfig \<Rightarrow> 'f list \<Rightarrow> 'f list" where
  "apply_top_k fo cfg logits =
     (if top_k cfg \<le> 0 \<or> top_k cfg \<ge> int (length logits) then logits
      else
        let threshold = rev (sort logits) ! (nat (top_k cfg) - 1)
        in map (\<lambda>x. if x < threshold then neg_inf fo else x) logits)"

text \<open>The loop of \<^verbatim>\<open>apply_top_p\<close> that normalises, accumulates and finds the cutoff.\<close>

fun cutoff_loop :: "'f::linorder float_ops \<Rightarrow> 'f \<Rightarrow> 'f \<Rightarrow> 'f list \<Rightarrow> nat \<Rightarrow> 'f \<Rightarrow> nat \<Rightarrow> nat" where
  "cutoff_loop fo p sum_probs [] i cumsum vocab_size = vocab_size"
| "cutoff_loop fo p sum_probs (prob # probs) i cumsum vocab_size =
     (let cumsum' = fadd fo cumsum (fdiv fo prob sum_probs)
      in if cumsum' > p then Suc i
         else cutoff_loop fo p sum_probs probs (Suc i) cumsum' vocab_size)"

text \<open>
  \<^verbatim>\<open>apply_top_p\<close> reads \<^verbatim>\<open>logit_idx[0]\<close>; on an empty array that read is outside the
  vector (\<open>Inl OutOfBounds\<close>).
\<close>

definition apply_top_p ::
  "('f::linorder, 'r) sampler_env \<Rightarrow> 'f SamplerConfig \<Rightarrow> 'f list \<Rightarrow> access_error + 'f list" where
  "apply_top_p env cfg logits =
     (if top_p cfg \<ge> fone (ops env) then Inr logits
      else if logits = [] then Inl OutOfBounds
      else
        let logit_idx = std_sort env (zip logits [0 ..< length logits]);
            max_logit = fst (hd logit_idx);
            probs = map (\<lambda>li. fexp (ops env) (fsub (ops env) (fst li) max_logit)) logit_idx;
            sum_probs = fold (\<lambda>prob acc. fadd (ops env) acc prob) probs (fzero (ops env));
            cutoff_idx = cutoff_loop (ops env) (top_p cfg) sum_probs probs 0 (fzero (ops env))
                           (length logits)
        in Inr (fold (\<lambda>li l. l[snd li := neg_inf (ops env)]) (drop cutoff_idx logit_idx) logits))"

text \<open>
  \<^verbatim>\<open>std::max_element\<close>: the position of the first element that no other exceeds; on
  an empty range it returns the end iterator, at distance 0.
\<close>

fun max_element_loop :: "'f::linorder list \<Rightarrow> nat \<Rightarrow> nat \<Rightarrow> 'f \<Rightarrow> nat" where
  "max_element_loop [] i largest lv = largest"
| "max_element_loop (x # xs) i largest lv =
     (if lv < x then max_element_loop xs (Suc i) i x
      else max_element_loop xs (Suc i) largest lv)"

definition max_element :: "'f::linorder list \<Rightarrow> nat" where
  "max_element xs = (case xs of [] \<Rightarrow> 0 | x # rest \<Rightarrow> max_element_loop rest 1 0 x)"

definition softmax :: "'f::linorder float_ops \<Rightarrow> 'f list \<Rightarrow> access_error + 'f list" where
  "softmax fo logits =
     (case vector_at logits (max_element logits) of
        Inl e \<Rightarrow> Inl e
      | Inr max_val \<Rightarrow>
          let exps = map (\<lambda>x. fexp fo (fsub fo x max_val)) logits;
              sum_probs = fold (\<lambda>x acc. fadd fo acc x) exps (fzero fo)
          in Inr (map (\<lambda>x. fdiv fo x sum_probs) exps))"

text \<open>
  The body of \<^verbatim>\<open>Sampler::sample\<close> on the array it is given: the token returned, the
  array as the call leaves it, and the sampler with its generator advanced.
\<close>

definition sample_on ::
  "('f::linorder, 'r) sampler_env \<Rightarrow> ('f, 'r) Sampler \<Rightarrow> 'f list \<Rightarrow> token list \<Rightarrow>
   access_error + (token \<times> 'f list \<times> ('f, 'r) Sampler)" where
  "sample_on env smp logits last_tokens =
     (let cfg = sampler_config smp;
          l1 = apply_repetition_penalty (ops env) cfg logits last_tokens;
          l2 = apply_temperature (ops env) cfg l1;
          l3 = apply_top_k (ops env) cfg l2
      in case apply_top_p env cfg l3 of
           Inl e \<Rightarrow> Inl e
         | Inr l4 \<Rightarrow>
             if temperature cfg \<le> fzero (ops env)
             then Inr (int_of_size_t (max_element l4), l4, smp)
             else case softmax (ops env) l4 of
                    Inl e \<Rightarrow> Inl e
                  | Inr l5 \<Rightarrow>
                      let (k, rng') = draw env (rng smp) l5
                      in Inr (int k, l5, smp\<lparr>rng := rng'\<rparr>))"

text \<open>
  Memory: the float arrays that exist, by address. \<^verbatim>\<open>sample\<close> works through the
  pointer it is given; \<^verbatim>\<open>sample_with_prob\<close> constructs the vector \<^verbatim>\<open>logits_copy\<close> (a new
  array, at the next free address), calls \<^verbatim>\<open>sample\<close> on it, reads \<^verbatim>\<open>logits_copy[token]\<close>
  and destroys the vector on return.
\<close>

type_synonym 'f memory = "'f list list"

definition sample ::
  "('f::linorder, 'r) sampler_env \<Rightarrow> ('f, 'r) Sampler \<Rightarrow> 'f memory \<Rightarrow> nat \<Rightarrow> token list \<Rightarrow>
   access_error + (token \<times> 'f memory \<times> ('f, 'r) Sampler)" where
  "sample env smp mem logits last_tokens =
     (case vector_at mem logits of
        Inl e \<Rightarrow> Inl e
      | Inr arr \<Rightarrow>
          (case sample_on env smp arr last_tokens of
             Inl e \<Rightarrow> Inl e
           | Inr (tok, arr', smp') \<Rightarrow> Inr (tok, mem[logits := arr'], smp')))"


text \<open>
  What the theorems below ask of \<^verbatim>\<open>std::sort\<close>: the result is a rearrangement of the
  input, in descending order of the logits.
\<close>

definition sorts_descending :: "(('f::linorder \<times> nat) list \<Rightarrow> ('f \<times> nat) list) \<Rightarrow> bool" where
  "sorts_descending srt \<longleftrightarrow>
     (\<forall>xs. mset (srt xs) = mset xs \<and> sorted_wrt (\<lambda>a b. fst b \<le> fst a) (srt xs))"

text \<open>
  An instance to run the model on: exact real arithmetic, with \<open>None\<close> for minus
  infinity; any operation with an infinite argument gives \<open>None\<close>, except that the
  exponential of minus infinity is 0. It agrees with binary32 arithmetic wherever
  that is exact, which is the case at every input evaluated below. The sort is an
  insertion sort that leaves equal logits in index order. The draw returns index 0,
  which is the only index with a non-zero weight at the input evaluated below; the
  generator state is not modelled.
\<close>

definition lift2 :: "(real \<Rightarrow> real \<Rightarrow> real) \<Rightarrow> real option \<Rightarrow> real option \<Rightarrow> real option" where
  "lift2 f a b =
     (case a of None \<Rightarrow> None | Some x \<Rightarrow> (case b of None \<Rightarrow> None | Some y \<Rightarrow> Some (f x y)))"

definition exact_ops :: "real option float_ops" where
  "exact_ops =
     \<lparr>fadd = lift2 (+), fsub = lift2 (-), fmul = lift2 (*), fdiv = lift2 (/),
      fexp = (\<lambda>a. case a of None \<Rightarrow> Some 0 | Some x \<Rightarrow> Some (exp x)),
      float_of_int = (\<lambda>i. Some (real_of_int i)),
      fzero = Some 0, fone = Some 1, neg_inf = None\<rparr>"

fun insert_desc :: "('f::linorder \<times> nat) \<Rightarrow> ('f \<times> nat) list \<Rightarrow> ('f \<times> nat) list" where
  "insert_desc a [] = [a]"
| "insert_desc a (b # bs) = (if fst b \<le> fst a then a # b # bs else b # insert_desc a bs)"

definition sort_desc :: "('f::linorder \<times> nat) list \<Rightarrow> ('f \<times> nat) list" where
  "sort_desc xs = foldr insert_desc xs []"

definition exact_env :: "(real option, unit) sampler_env" where
  "exact_env = \<lparr>ops = exact_ops, std_sort = sort_desc, draw = (\<lambda>r w. (0, r))\<rparr>"

section \<open>Facts about the scan\<close>

lemma match_loop_lcp:
  "i \<le> min (length a) (length b) \<Longrightarrow>
   match_loop a b (min (length a) (length b)) i cnt =
   cnt + length (longest_common_prefix (drop i a) (drop i b))"
proof (induction a b "min (length a) (length b)" i cnt rule: match_loop.induct)
  case (1 a b i cnt)
  show ?case
  proof (cases "i < min (length a) (length b)")
    case False
    with "1.prems" have "i = min (length a) (length b)" by arith
    then have "drop i a = [] \<or> drop i b = []" by (auto simp: min_def split: if_splits)
    then have "longest_common_prefix (drop i a) (drop i b) = []" by auto
    with False show ?thesis by (auto simp: match_loop.simps [of a b _ i cnt])
  next
    case True
    then have ia: "i < length a" and ib: "i < length b" by simp_all
    have da: "drop i a = a ! i # drop (Suc i) a" using ia by (simp add: Cons_nth_drop_Suc)
    have db: "drop i b = b ! i # drop (Suc i) b" using ib by (simp add: Cons_nth_drop_Suc)
    show ?thesis
    proof (cases "a ! i = b ! i")
      case eq: True
      have "match_loop a b (min (length a) (length b)) (Suc i) (Suc cnt) =
            Suc cnt + length (longest_common_prefix (drop (Suc i) a) (drop (Suc i) b))"
        using "1.hyps" [OF True eq] True by simp
      then show ?thesis
        using True eq by (simp add: match_loop.simps [of a b _ i cnt] da db)
    next
      case False
      then show ?thesis
        using True by (simp add: match_loop.simps [of a b _ i cnt] da db)
    qed
  qed
qed

lemma match_loop_start:
  "match_loop a b (min (length a) (length b)) 0 0 = length (longest_common_prefix a b)"
  using match_loop_lcp [of 0 a b 0] by simp

lemma int_of_size_t_small: "n < 2 ^ 31 \<Longrightarrow> int_of_size_t n = int n"
proof -
  assume h: "n < 2 ^ 31"
  then have "int n < 2 ^ 31" by (metis of_nat_less_iff of_nat_numeral of_nat_power)
  then show ?thesis by (simp add: int_of_size_t_def Let_def)
qed

lemma length_lcp_le: "length (longest_common_prefix a b) \<le> length b"
  by (rule prefix_length_le [OF longest_common_prefix_prefix2])

lemma lcp_sym: "longest_common_prefix a b = longest_common_prefix b a"
  by (induction a b rule: longest_common_prefix.induct) auto

section \<open>Facts about PrefixCacheManager\<close>

subsection \<open>Eviction\<close>

lemma min_element_loop_inv:
  "s < length pre \<Longrightarrow> sv = (pre @ xs) ! s \<Longrightarrow> i = length pre \<Longrightarrow>
   (\<forall>j < length pre. sv \<le> (pre @ xs) ! j) \<Longrightarrow> (\<forall>j < s. sv < (pre @ xs) ! j) \<Longrightarrow>
   (let k = min_element_loop xs i s sv in
      k < length (pre @ xs) \<and> (\<forall>j < length (pre @ xs). (pre @ xs) ! k \<le> (pre @ xs) ! j) \<and>
      (\<forall>j < k. (pre @ xs) ! k < (pre @ xs) ! j))"
proof (induction xs arbitrary: pre s sv i)
  case Nil
  then show ?case by (simp add: Let_def)
next
  case (Cons x xs)
  let ?ys = "pre @ x # xs"
  have split: "pre @ x # xs = (pre @ [x]) @ xs" by simp
  have xi: "?ys ! i = x" using Cons.prems(3) by simp
  show ?case
  proof (cases "x < sv")
    case True
    have a: "i < length (pre @ [x])" using Cons.prems(3) by simp
    have b: "x = ((pre @ [x]) @ xs) ! i" using xi by simp
    have c: "Suc i = length (pre @ [x])" using Cons.prems(3) by simp
    have d: "\<forall>j < length (pre @ [x]). x \<le> ((pre @ [x]) @ xs) ! j"
    proof (intro allI impI)
      fix j assume "j < length (pre @ [x])"
      then consider "j < length pre" | "j = i" using Cons.prems(3) by force
      then show "x \<le> ((pre @ [x]) @ xs) ! j"
      proof cases
        case 1
        then have "sv \<le> ?ys ! j" using Cons.prems(4) by blast
        then show ?thesis using True by simp
      next
        case 2
        then show ?thesis using xi by simp
      qed
    qed
    have e: "\<forall>j < i. x < ((pre @ [x]) @ xs) ! j"
    proof (intro allI impI)
      fix j assume "j < i"
      then have "j < length pre" using Cons.prems(3) by simp
      then have "sv \<le> ?ys ! j" using Cons.prems(4) by blast
      then show "x < ((pre @ [x]) @ xs) ! j" using True by simp
    qed
    from Cons.IH [OF a b c d e] True show ?thesis by (simp add: Let_def)
  next
    case False
    have a: "s < length (pre @ [x])" using Cons.prems(1) by simp
    have b: "sv = ((pre @ [x]) @ xs) ! s" using Cons.prems(2) by simp
    have c: "Suc i = length (pre @ [x])" using Cons.prems(3) by simp
    have d: "\<forall>j < length (pre @ [x]). sv \<le> ((pre @ [x]) @ xs) ! j"
    proof (intro allI impI)
      fix j assume "j < length (pre @ [x])"
      then consider "j < length pre" | "j = i" using Cons.prems(3) by force
      then show "sv \<le> ((pre @ [x]) @ xs) ! j"
      proof cases
        case 1
        then show ?thesis using Cons.prems(4) by simp
      next
        case 2
        then show ?thesis using xi False by simp
      qed
    qed
    have e: "\<forall>j < s. sv < ((pre @ [x]) @ xs) ! j" using Cons.prems(5) by simp
    from Cons.IH [OF a b c d e] False show ?thesis by (simp add: Let_def)
  qed
qed

lemma min_element_first_min:
  "xs \<noteq> [] \<Longrightarrow>
   min_element xs < length xs \<and> (\<forall>j < length xs. xs ! min_element xs \<le> xs ! j) \<and>
   (\<forall>j < min_element xs. xs ! min_element xs < xs ! j)"
proof -
  assume "xs \<noteq> []"
  then obtain x rest where xs: "xs = x # rest" by (cases xs) auto
  have "let k = min_element_loop rest 1 0 x in
      k < length ([x] @ rest) \<and> (\<forall>j < length ([x] @ rest). ([x] @ rest) ! k \<le> ([x] @ rest) ! j) \<and>
      (\<forall>j < k. ([x] @ rest) ! k < ([x] @ rest) ! j)"
    by (rule min_element_loop_inv) auto
  then show ?thesis by (simp add: xs min_element_def Let_def)
qed

lemma length_erase: "k < length xs \<Longrightarrow> length (erase k xs) = length xs - 1"
  by (simp add: erase_def)

lemma length_evict_lru:
  "entries c \<noteq> [] \<Longrightarrow> length (entries (evict_lru c)) = length (entries c) - 1"
  using min_element_first_min [of "map last_access_time (entries c)"]
  by (simp add: evict_lru_def length_erase)

lemma max_entries_evict_lru: "max_entries (evict_lru c) = max_entries c"
  by (simp add: evict_lru_def)

lemma max_entries_add_prefix: "max_entries (add_prefix c toks data now) = max_entries c"
  by (simp add: add_prefix_def Let_def max_entries_evict_lru)

lemma length_add_prefix_le:
  "1 \<le> max_entries c \<Longrightarrow> length (entries c) \<le> max_entries c \<Longrightarrow>
   length (entries (add_prefix c toks data now)) \<le> max_entries c"
proof -
  assume m: "1 \<le> max_entries c" and le: "length (entries c) \<le> max_entries c"
  show ?thesis
  proof (cases "length (entries c) \<ge> max_entries c")
    case True
    then have "entries c \<noteq> []" using m by auto
    then show ?thesis using le m True
      by (simp add: add_prefix_def Let_def length_evict_lru)
  next
    case False
    then show ?thesis using le by (simp add: add_prefix_def Let_def)
  qed
qed

lemma add_all_bounded:
  "1 \<le> max_entries c \<Longrightarrow> length (entries c) \<le> max_entries c \<Longrightarrow>
   length (entries (add_all c calls)) \<le> max_entries c"
proof (induction calls arbitrary: c)
  case Nil
  then show ?case by (simp add: add_all_def)
next
  case (Cons call calls)
  obtain toks data now where call: "call = (toks, data, now)" by (cases call) auto
  let ?c1 = "add_prefix c toks data now"
  have m1: "max_entries ?c1 = max_entries c" by (rule max_entries_add_prefix)
  have l1: "length (entries ?c1) \<le> max_entries ?c1"
    using length_add_prefix_le [OF Cons.prems] m1 by simp
  have "length (entries (add_all ?c1 calls)) \<le> max_entries ?c1"
    using Cons.IH [of ?c1] Cons.prems(1) m1 l1 by simp
  then show ?case using m1 by (simp add: add_all_def call)
qed

subsection \<open>The prefix search\<close>

lemma lcp_full: "length (longest_common_prefix a b) = length b \<longleftrightarrow> prefix b a"
proof
  assume "length (longest_common_prefix a b) = length b"
  moreover have "prefix (longest_common_prefix a b) b" by (rule longest_common_prefix_prefix2)
  ultimately have "longest_common_prefix a b = b"
    by (metis prefix_length_le prefix_order.eq_iff prefix_def append_eq_conv_conj length_append
        add_diff_cancel_left' length_0_conv append_Nil2)
  then show "prefix b a" by (metis longest_common_prefix_prefix1)
next
  assume "prefix b a"
  then have "prefix b (longest_common_prefix a b)"
    by (simp add: longest_common_prefix_max_prefix)
  then have "length b \<le> length (longest_common_prefix a b)" by (rule prefix_length_le)
  then show "length (longest_common_prefix a b) = length b"
    using length_lcp_le [of a b] by simp
qed

lemma find_prefix_loop_inv:
  "i = length pre \<Longrightarrow> es = pre @ rest \<Longrightarrow>
   (best = - 1 \<and> best_len = 0 \<and> (\<forall>j < i. \<not> candidate es T j)) \<or>
   (\<exists>b. first_longest es T i b \<and> best = int_of_size_t b \<and> best_len = length (tokens (es ! b))) \<Longrightarrow>
   (find_prefix_loop T rest i best best_len = - 1 \<and> (\<forall>j < length es. \<not> candidate es T j)) \<or>
   (\<exists>b. first_longest es T (length es) b \<and> find_prefix_loop T rest i best best_len = int_of_size_t b)"
proof (induction rest arbitrary: pre i best best_len)
  case Nil
  then show ?case by auto
next
  case (Cons e rest)
  have ei: "es ! i = e" and il: "i < length es" using Cons.prems(1,2) by simp_all
  have es': "es = (pre @ [e]) @ rest" using Cons.prems(2) by simp
  have i': "Suc i = length (pre @ [e])" using Cons.prems(1) by simp
  let ?ml = "match_loop T (tokens e) (min (length T) (length (tokens e))) 0 0"
  have ml: "?ml = length (longest_common_prefix T (tokens e))" by (rule match_loop_start)
  have full: "?ml = length (tokens e) \<longleftrightarrow> prefix (tokens e) T"
    by (simp add: ml lcp_full)
  show ?case
  proof (cases "?ml = length (tokens e) \<and> ?ml > best_len")
    case True
    then have pre_e: "prefix (tokens e) T" and gt: "length (tokens e) > best_len"
      using full by auto
    have cand: "candidate es T i" using pre_e gt ei il by (auto simp: candidate_def)
    have bound: "\<forall>j < i. candidate es T j \<longrightarrow> length (tokens (es ! j)) < length (tokens (es ! i))"
    proof (intro allI impI)
      fix j assume j: "j < i" and cj: "candidate es T j"
      from Cons.prems(3) show "length (tokens (es ! j)) < length (tokens (es ! i))"
      proof
        assume "best = - 1 \<and> best_len = 0 \<and> (\<forall>j < i. \<not> candidate es T j)"
        then show ?thesis using j cj by blast
      next
        assume "\<exists>b. first_longest es T i b \<and> best = int_of_size_t b \<and>
                  best_len = length (tokens (es ! b))"
        then obtain b where "first_longest es T i b" "best_len = length (tokens (es ! b))" by blast
        then have "length (tokens (es ! j)) \<le> best_len" using j cj
          by (auto simp: first_longest_def)
        then show ?thesis using gt ei by simp
      qed
    qed
    have fl: "first_longest es T (Suc i) i"
      unfolding first_longest_def
    proof (intro conjI allI impI)
      fix j assume "j < Suc i" and cj: "candidate es T j"
      then consider "j < i" | "j = i" by force
      then show "length (tokens (es ! j)) \<le> length (tokens (es ! i))"
        using bound cj by cases auto
    qed (use cand bound in auto)
    have inv: "(int_of_size_t i = - 1 \<and> length (tokens e) = 0 \<and> (\<forall>j < Suc i. \<not> candidate es T j)) \<or>
      (\<exists>b. first_longest es T (Suc i) b \<and> int_of_size_t i = int_of_size_t b \<and>
           length (tokens e) = length (tokens (es ! b)))"
      using fl ei by blast
    have step: "find_prefix_loop T (e # rest) i best best_len =
                find_prefix_loop T rest (Suc i) (int_of_size_t i) (length (tokens e))"
      using True by (auto simp: Let_def)
    show ?thesis unfolding step by (rule Cons.IH [OF i' es' inv])
  next
    case False
    have inv: "(best = - 1 \<and> best_len = 0 \<and> (\<forall>j < Suc i. \<not> candidate es T j)) \<or>
      (\<exists>b. first_longest es T (Suc i) b \<and> best = int_of_size_t b \<and>
           best_len = length (tokens (es ! b)))"
      using Cons.prems(3)
    proof
      assume a: "best = - 1 \<and> best_len = 0 \<and> (\<forall>j < i. \<not> candidate es T j)"
      have "\<not> candidate es T i" using False a full ei by (auto simp: candidate_def)
      then have "\<forall>j < Suc i. \<not> candidate es T j" using a by (auto simp: less_Suc_eq)
      then show ?thesis using a by blast
    next
      assume "\<exists>b. first_longest es T i b \<and> best = int_of_size_t b \<and>
                best_len = length (tokens (es ! b))"
      then obtain b where b: "first_longest es T i b" "best = int_of_size_t b"
        "best_len = length (tokens (es ! b))" by blast
      have "candidate es T i \<longrightarrow> length (tokens (es ! i)) \<le> length (tokens (es ! b))"
        using False full ei b(3) by (auto simp: candidate_def)
      then have "first_longest es T (Suc i) b"
        using b(1) by (auto simp: first_longest_def less_Suc_eq)
      then show ?thesis using b by blast
    qed
    have step: "find_prefix_loop T (e # rest) i best best_len =
                find_prefix_loop T rest (Suc i) best best_len"
      using False by (auto simp: Let_def)
    show ?thesis unfolding step by (rule Cons.IH [OF i' es' inv])
  qed
qed

lemma find_prefix_cases:
  "(find_prefix c T = - 1 \<and> (\<forall>j < length (entries c). \<not> candidate (entries c) T j)) \<or>
   (\<exists>b. first_longest (entries c) T (length (entries c)) b \<and> find_prefix c T = int_of_size_t b)"
  unfolding find_prefix_def
  by (rule find_prefix_loop_inv [of 0 "[]"]) auto

lemma find_prefix_in_range:
  "0 \<le> find_prefix c T \<Longrightarrow> nat (find_prefix c T) < length (entries c)"
proof -
  assume nn: "0 \<le> find_prefix c T"
  have le: "\<And>b. 0 \<le> int_of_size_t b \<Longrightarrow> nat (int_of_size_t b) \<le> b"
  proof -
    fix b :: nat
    assume "0 \<le> int_of_size_t b"
    have "int b mod 2 ^ 32 \<le> int b" by (simp add: zmod_le_nonneg_dividend)
    moreover have "int_of_size_t b \<le> int b mod 2 ^ 32"
      by (simp add: int_of_size_t_def Let_def)
    ultimately show "nat (int_of_size_t b) \<le> b" by linarith
  qed
  from find_prefix_cases [of c T] nn
  obtain b where b: "first_longest (entries c) T (length (entries c)) b"
    "find_prefix c T = int_of_size_t b" by auto
  then have "b < length (entries c)" by (simp add: first_longest_def)
  moreover have "nat (find_prefix c T) \<le> b" using le [of b] nn b(2) by simp
  ultimately show ?thesis by simp
qed

subsection \<open>Integer conversions\<close>

lemma size_t_of_int_small: "0 \<le> i \<Longrightarrow> i < 2 ^ 64 \<Longrightarrow> size_t_of_int i = nat i"
  by (simp add: size_t_of_int_def)

lemma int_of_size_t_le: "int_of_size_t n \<le> int n"
proof -
  have "int n mod 2 ^ 32 \<le> int n" by (simp add: zmod_le_nonneg_dividend)
  moreover have "int_of_size_t n \<le> int n mod 2 ^ 32" by (simp add: int_of_size_t_def Let_def)
  ultimately show ?thesis by linarith
qed

lemma int_of_size_t_bound: "int_of_size_t n < 2 ^ 31"
proof -
  have "int n mod 2 ^ 32 < 2 ^ 32" by simp
  then show ?thesis by (auto simp: int_of_size_t_def Let_def)
qed

subsection \<open>Reachable cache states\<close>

lemma distinct_filter_nth:
  "distinct (filter P xs) \<Longrightarrow> i < length xs \<Longrightarrow> j < length xs \<Longrightarrow> xs ! i = xs ! j \<Longrightarrow>
   P (xs ! i) \<Longrightarrow> i = j"
proof (induction xs arbitrary: i j)
  case Nil
  then show ?case by simp
next
  case (Cons x xs)
  show ?case
  proof (cases i)
    case i0: 0
    show ?thesis
    proof (cases j)
      case 0
      with i0 show ?thesis by simp
    next
      case (Suc j')
      then have "xs ! j' = x" "j' < length xs" "P x" using Cons.prems i0 by auto
      then have "x \<in> set (filter P xs)" using nth_mem [of _ xs] by auto
      then show ?thesis using Cons.prems(1) \<open>P x\<close> by simp
    qed
  next
    case si: (Suc i')
    show ?thesis
    proof (cases j)
      case 0
      then have "xs ! i' = x" "i' < length xs" "P x" using Cons.prems si by auto
      then have "x \<in> set (filter P xs)" using nth_mem [of _ xs] by auto
      then show ?thesis using Cons.prems(1) \<open>P x\<close> by simp
    next
      case (Suc j')
      have "distinct (filter P xs)" using Cons.prems(1) by (simp split: if_splits)
      then have "i' = j'" using Cons.IH [of i' j'] Cons.prems si Suc by simp
      then show ?thesis using si Suc by simp
    qed
  qed
qed

lemma unique_nonempty_erase: "unique_nonempty es \<Longrightarrow> k < length es \<Longrightarrow> unique_nonempty (erase k es)"
proof -
  assume u: "unique_nonempty es" and k: "k < length es"
  have "es = take k es @ es ! k # drop (Suc k) es" using k by (rule id_take_nth_drop)
  then have "map tokens es = map tokens (take k es) @ tokens (es ! k) # map tokens (drop (Suc k) es)"
    by (metis list.simps(9) map_append)
  then have "distinct (filter (\<lambda>t. t \<noteq> []) (map tokens (take k es) @ tokens (es ! k) # map tokens (drop (Suc k) es)))"
    using u by (simp add: unique_nonempty_def)
  then show ?thesis by (auto simp: unique_nonempty_def erase_def split: if_splits)
qed

lemma set_erase_subset: "set (erase k es) \<subseteq> set es"
  unfolding erase_def by (metis Un_least set_append set_drop_subset set_take_subset)

lemma unique_nonempty_evict_lru: "unique_nonempty (entries c) \<Longrightarrow> unique_nonempty (entries (evict_lru c))"
  using min_element_first_min [of "map last_access_time (entries c)"]
  by (auto simp: evict_lru_def unique_nonempty_erase)

lemma set_entries_evict_lru: "set (entries (evict_lru c)) \<subseteq> set (entries c)"
  by (cases "entries c = []") (simp_all add: evict_lru_def set_erase_subset)

lemma unique_nonempty_touch:
  "k < length es \<Longrightarrow> tokens e' = tokens (es ! k) \<Longrightarrow> unique_nonempty (es[k := e']) = unique_nonempty es"
proof -
  assume "k < length es" "tokens e' = tokens (es ! k)"
  then have "map tokens (es[k := e']) = map tokens es"
    by (metis list_update_id map_update)
  then show ?thesis by (simp add: unique_nonempty_def)
qed

lemma length_evict_lru_le: "length (entries (evict_lru c)) \<le> length (entries c)"
  by (cases "entries c = []") (simp_all add: length_evict_lru, simp add: evict_lru_def)

text \<open>
  With fewer than \<open>2^31\<close> entries, \<^verbatim>\<open>add_prefix\<close> takes its update branch whenever an
  entry with the same non-empty token sequence exists.
\<close>

lemma add_prefix_finds_identical:
  assumes small: "length (entries c) < 2 ^ 31"
    and ex: "T \<in> tokens ` set (entries c)" and ne: "T \<noteq> []"
  shows "0 \<le> find_prefix c T \<and> length (tokens (entries c ! nat (find_prefix c T))) = length T"
proof -
  from ex obtain j where j: "j < length (entries c)" "tokens (entries c ! j) = T"
    by (auto simp: in_set_conv_nth)
  then have cj: "candidate (entries c) T j" using ne by (simp add: candidate_def)
  with find_prefix_cases [of c T] j(1)
  obtain b where b: "first_longest (entries c) T (length (entries c)) b"
    "find_prefix c T = int_of_size_t b" by auto
  have bl: "b < length (entries c)" using b(1) by (simp add: first_longest_def)
  then have "b < 2 ^ 31" using small by simp
  then have fb: "find_prefix c T = int b" using b(2) by (simp add: int_of_size_t_small)
  have "length T \<le> length (tokens (entries c ! b))"
    using b(1) cj j by (auto simp: first_longest_def)
  moreover have "prefix (tokens (entries c ! b)) T"
    using b(1) by (simp add: first_longest_def candidate_def)
  then have "length (tokens (entries c ! b)) \<le> length T" by (rule prefix_length_le)
  ultimately show ?thesis using fb by simp
qed

lemma cache_inv_small: "cache_inv c \<Longrightarrow> length (entries c) < 2 ^ 31"
proof -
  assume "cache_inv c"
  then have "length (entries c) \<le> max 1 (max_entries c)" "max_entries c < 2 ^ 31"
    by (auto simp: cache_inv_def)
  moreover have "(1::nat) < 2 ^ 31" by simp
  ultimately show ?thesis by (metis max_less_iff_conj le_less_trans)
qed

lemma cache_inv_add_prefix: "cache_inv c \<Longrightarrow> cache_inv (add_prefix c T d now)"
proof -
  assume inv: "cache_inv c"
  let ?ex = "find_prefix c T"
  show ?thesis
  proof (cases "0 \<le> ?ex \<and> length (tokens (entries c ! nat ?ex)) = length T")
    case True
    have r: "nat ?ex < length (entries c)" using True find_prefix_in_range by blast
    have "entries (add_prefix c T d now) = (entries c)[nat ?ex :=
        (entries c ! nat ?ex)\<lparr>cache_data := d, last_access_time := now,
           access_count := access_count (entries c ! nat ?ex) + 1\<rparr>]"
      using True by (simp add: add_prefix_def Let_def)
    then show ?thesis
      using inv r by (simp add: cache_inv_def unique_nonempty_touch max_entries_add_prefix)
  next
    case False
    define c1 where "c1 = (if length (entries c) \<ge> max_entries c then evict_lru c else c)"
    have e: "entries (add_prefix c T d now) = entries c1 @
        [\<lparr>tokens = T, cache_data = d, last_access_time = now, access_count = 1\<rparr>]"
      using False by (auto simp: add_prefix_def Let_def c1_def)
    have u1: "unique_nonempty (entries c1)"
      using inv by (simp add: c1_def cache_inv_def unique_nonempty_evict_lru)
    have sub: "set (entries c1) \<subseteq> set (entries c)"
      using set_entries_evict_lru by (auto simp: c1_def)
    have notin: "T \<noteq> [] \<Longrightarrow> T \<notin> tokens ` set (entries c)"
      using add_prefix_finds_identical [OF cache_inv_small [OF inv], of T] False by blast
    have "T \<noteq> [] \<Longrightarrow> T \<notin> set (map tokens (entries c1))" using notin sub by auto
    then have u: "unique_nonempty (entries (add_prefix c T d now))"
      using u1 by (auto simp: e unique_nonempty_def)
    have len: "length (entries c1) + 1 \<le> max 1 (max_entries c)"
    proof (cases "length (entries c) \<ge> max_entries c")
      case ge: True
      show ?thesis
      proof (cases "entries c = []")
        case True
        then show ?thesis using ge by (simp add: c1_def evict_lru_def)
      next
        case ne: False
        then have "length (entries c1) = length (entries c) - 1"
          using ge by (simp add: c1_def length_evict_lru)
        moreover have "length (entries c) \<ge> 1" using ne by (cases "entries c") auto
        moreover have "length (entries c) \<le> max 1 (max_entries c)"
          using inv by (simp add: cache_inv_def)
        ultimately show ?thesis by linarith
      qed
    next
      case False
      then show ?thesis by (simp add: c1_def)
    qed
    show ?thesis using u len inv by (simp add: cache_inv_def e max_entries_add_prefix)
  qed
qed

lemma cache_inv_apply_call: "cache_inv c \<Longrightarrow> cache_inv (apply_call c call)"
proof (cases call)
  case (AddPrefix toks data now)
  assume "cache_inv c"
  then show ?thesis using AddPrefix by (simp add: cache_inv_add_prefix)
next
  case (GetEntry index now)
  assume inv: "cache_inv c"
  show ?thesis
  proof (cases "get_entry c index now")
    case (Inl e)
    then show ?thesis using inv GetEntry by simp
  next
    case (Inr r)
    then show ?thesis using inv GetEntry
      by (auto simp: get_entry_def vector_at_def cache_inv_def unique_nonempty_touch
          split: if_splits)
  qed
next
  case Clear
  assume "cache_inv c"
  then show ?thesis using Clear by (simp add: cache_inv_def clear_entries_def unique_nonempty_def)
qed

lemma cache_inv_run_calls: "cache_inv c \<Longrightarrow> cache_inv (run_calls c calls)"
  unfolding run_calls_def by (induction calls arbitrary: c) (auto simp: cache_inv_apply_call)

lemma cache_inv_new: "n < 2 ^ 31 \<Longrightarrow> cache_inv (PrefixCacheManager_new n)"
  by (simp add: cache_inv_def PrefixCacheManager_new_def unique_nonempty_def)

lemma find_prefix_meets_spec:
  assumes inv: "cache_inv c"
  shows "find_prefix_spec_nonempty (entries c) T (find_prefix c T)"
proof -
  let ?es = "entries c"
  have cand_iff: "\<And>j. candidate ?es T j \<longleftrightarrow>
      j < length ?es \<and> tokens (?es ! j) \<noteq> [] \<and> prefix (tokens (?es ! j)) T"
    by (simp add: candidate_def)
  from find_prefix_cases [of c T] show ?thesis
  proof
    assume "find_prefix c T = - 1 \<and> (\<forall>j < length ?es. \<not> candidate ?es T j)"
    then show ?thesis by (auto simp: find_prefix_spec_nonempty_def candidate_def)
  next
    assume "\<exists>b. first_longest ?es T (length ?es) b \<and> find_prefix c T = int_of_size_t b"
    then obtain b where b: "first_longest ?es T (length ?es) b"
      and fb: "find_prefix c T = int_of_size_t b" by blast
    have bl: "b < length ?es" and cb: "candidate ?es T b" using b by (auto simp: first_longest_def)
    have "b < 2 ^ 31" using bl cache_inv_small [OF inv] by simp
    then have r: "find_prefix c T = int b" using fb by (simp add: int_of_size_t_small)
    have best: "\<forall>j < length ?es. tokens (?es ! j) \<noteq> [] \<and> prefix (tokens (?es ! j)) T \<longrightarrow>
        length (tokens (?es ! j)) < length (tokens (?es ! b)) \<or>
        (length (tokens (?es ! j)) = length (tokens (?es ! b)) \<and>
         last_access_time (?es ! j) \<le> last_access_time (?es ! b))"
    proof (intro allI impI)
      fix j assume j: "j < length ?es"
        and cj: "tokens (?es ! j) \<noteq> [] \<and> prefix (tokens (?es ! j)) T"
      then have "candidate ?es T j" by (simp add: candidate_def)
      then have le: "length (tokens (?es ! j)) \<le> length (tokens (?es ! b))"
        using b j by (auto simp: first_longest_def)
      show "length (tokens (?es ! j)) < length (tokens (?es ! b)) \<or>
        (length (tokens (?es ! j)) = length (tokens (?es ! b)) \<and>
         last_access_time (?es ! j) \<le> last_access_time (?es ! b))"
      proof (cases "length (tokens (?es ! j)) = length (tokens (?es ! b))")
        case False
        then show ?thesis using le by simp
      next
        case True
        have pb: "prefix (tokens (?es ! b)) T" using cb by (simp add: candidate_def)
        have "tokens (?es ! j) = tokens (?es ! b)"
          using cj pb True by (metis prefix_def append_eq_append_conv)
        then have "map tokens ?es ! j = map tokens ?es ! b" using j bl by simp
        moreover have "distinct (filter (\<lambda>t. t \<noteq> []) (map tokens ?es))"
          using inv by (simp add: cache_inv_def unique_nonempty_def)
        ultimately have "j = b"
          using distinct_filter_nth [of "\<lambda>t. t \<noteq> []" "map tokens ?es" j b] j bl cj by simp
        then show ?thesis by simp
      qed
    qed
    have "\<exists>j < length ?es. tokens (?es ! j) \<noteq> [] \<and> prefix (tokens (?es ! j)) T"
      using cb bl by (auto simp: candidate_def)
    moreover have "\<exists>i < length ?es. find_prefix c T = int i \<and> tokens (?es ! i) \<noteq> [] \<and>
        prefix (tokens (?es ! i)) T \<and>
        (\<forall>j < length ?es. tokens (?es ! j) \<noteq> [] \<and> prefix (tokens (?es ! j)) T \<longrightarrow>
          length (tokens (?es ! j)) < length (tokens (?es ! i)) \<or>
          (length (tokens (?es ! j)) = length (tokens (?es ! i)) \<and>
           last_access_time (?es ! j) \<le> last_access_time (?es ! i)))"
      using bl r cb best by (auto simp: candidate_def)
    ultimately show ?thesis by (simp add: find_prefix_spec_nonempty_def)
  qed
qed

section \<open>Facts about LLMEngine\<close>

lemma le_bytes_numeral:
  "le_bytes (numeral n) v = (v mod 256) # le_bytes (pred_numeral n) (v div 256)"
  by (subst numeral_eq_Suc) (rule le_bytes.simps(2))

lemma gen_loop_numeral:
  "gen_loop env config has_callback (numeral n) i s =
     (case loop_body env config has_callback i s of
        Break s' \<Rightarrow> s'
      | Continue s' \<Rightarrow> gen_loop env config has_callback (pred_numeral n) (Suc i) s')"
  by (subst numeral_eq_Suc) (rule gen_loop.simps(2))

lemma generate_tail_no_error: "fst (generate_tail env config cb e) \<noteq> Inl err"
  by (simp add: generate_tail_def Let_def)

text \<open>
  Whenever \<^verbatim>\<open>load_session\<close> returns true, the history it has just read is gone: the
  call to \<^verbatim>\<open>clear_cache\<close> empties it.
\<close>

lemma load_session_true_clears:
  "load_session e path fs garbage max_alloc = (Inr True, e') \<Longrightarrow>
   token_history e' = [] \<and> n_past e' = 0"
  by (auto simp: load_session_def clear_cache_def Let_def split: if_splits option.splits)

text \<open>
  On every path on which no single-token decode fails, the loop keeps the token
  history and \<open>n_past\<close> in step, and so does the whole call when it returns.
\<close>

lemma loop_body_lockstep:
  "decode_ok (steps env i) \<Longrightarrow>
   int (length (token_history (eng s))) = n_past (eng s) \<Longrightarrow>
   loop_body env config cb i s = Continue s' \<or> loop_body env config cb i s = Break s' \<Longrightarrow>
   int (length (token_history (eng s'))) = n_past (eng s')"
  by (auto simp: loop_body_def Let_def split: if_splits option.splits)

lemma gen_loop_lockstep:
  "\<forall>j. decode_ok (steps env j) \<Longrightarrow>
   int (length (token_history (eng s))) = n_past (eng s) \<Longrightarrow>
   int (length (token_history (eng (gen_loop env config cb k i s)))) =
   n_past (eng (gen_loop env config cb k i s))"
proof (induction k arbitrary: i s)
  case 0
  then show ?case by simp
next
  case (Suc k)
  show ?case
  proof (cases "loop_body env config cb i s")
    case (Continue s')
    have "int (length (token_history (eng s'))) = n_past (eng s')"
      using loop_body_lockstep [of env i s config cb s'] Suc.prems Continue by simp
    then show ?thesis using Suc.IH [OF Suc.prems(1)] Continue by simp
  next
    case (Break s')
    have "int (length (token_history (eng s'))) = n_past (eng s')"
      using loop_body_lockstep [of env i s config cb s'] Suc.prems Break by simp
    then show ?thesis using Break by simp
  qed
qed

lemma match_loop_le:
  "match_loop a b (min (length a) (length b)) 0 0 \<le> length a"
  using length_lcp_le [of b a] by (simp add: match_loop_start lcp_sym [of a b])

lemma generate_stream_lockstep:
  assumes ctx: "0 \<le> n_ctx e" "n_ctx e < 2 ^ 31"
    and ok: "\<forall>j. decode_ok (steps env j)"
    and ret: "generate_stream env config cb e = (Inr text, e', cbs)"
  shows "int (length (token_history e')) = n_past e'"
proof -
  let ?toks = "prompt_toks env"
  have init: "initialized e" using ret by (auto simp: generate_stream_def split: if_splits)
  have "(2::int) ^ 31 < 2 ^ 64" by simp
  with ctx have "n_ctx e < 2 ^ 64" by linarith
  then have sz: "size_t_of_int (n_ctx e) = nat (n_ctx e)" using ctx(1) by (simp add: size_t_of_int_def)
  have short: "length ?toks < nat (n_ctx e)"
    using ret init sz by (auto simp: generate_stream_def Let_def split: if_splits)
  then have "int (length ?toks) < 2 ^ 31" using ctx by linarith
  then have "length ?toks < 2 ^ 31" by (metis of_nat_less_iff of_nat_numeral of_nat_power)
  then have cast: "int_of_size_t (length ?toks) = int (length ?toks)" by (rule int_of_size_t_small)
  define e2 where "e2 = e\<lparr>stop_flag := False,
      stats := (stats e)\<lparr>prompt_tokens := int_of_size_t (length ?toks)\<rparr>\<rparr>"
  define n_reuse where "n_reuse = int (match_loop ?toks (token_history e2)
      (min (length ?toks) (length (token_history e2))) 0 0)"
  define e3 where "e3 = (if n_reuse < n_past e2
      then e2\<lparr>backend := backend e2 @ [KvSeqRm n_reuse], n_past := n_reuse\<rparr> else e2)"
  have reuse_le: "n_reuse \<le> int (length ?toks)"
    unfolding n_reuse_def using match_loop_le [of ?toks "token_history e2"] by simp
  have past_le: "n_past e3 \<le> int (length ?toks)" using reuse_le by (simp add: e3_def)
  define e5 where "e5 = (if int (length ?toks) > n_past e3
      then e3\<lparr>backend := backend e3 @ [Decode (prompt_batch (drop (nat (n_past e3)) ?toks) (n_past e3))],
              n_past := int (length ?toks)\<rparr>
      else e3)"
  have past5: "n_past e5 = int (length ?toks)" using past_le by (simp add: e5_def)
  have tail: "generate_tail env config cb e5 = (Inr text, e', cbs)"
    using ret init short sz cast
    by (auto simp: generate_stream_def Let_def e5_def e3_def n_reuse_def e2_def split: if_splits)
  let ?s0 = "\<lparr>eng = e5\<lparr>token_history := ?toks\<rparr>, result = [], generated_tokens = [],
             callbacks = []\<rparr>"
  have "int (length (token_history (eng ?s0))) = n_past (eng ?s0)" using past5 by simp
  then have "int (length (token_history (eng (gen_loop env config cb (nat (max_tokens config)) 0 ?s0)))) =
      n_past (eng (gen_loop env config cb (nat (max_tokens config)) 0 ?s0))"
    by (rule gen_loop_lockstep [OF ok])
  then show ?thesis using tail by (auto simp: generate_tail_def Let_def)
qed

section \<open>Facts about Sampler\<close>

lemma max_element_loop_inv:
  "s < length pre \<Longrightarrow> sv = (pre @ xs) ! s \<Longrightarrow> i = length pre \<Longrightarrow>
   (\<forall>j < length pre. (pre @ xs) ! j \<le> sv) \<Longrightarrow> (\<forall>j < s. (pre @ xs) ! j < sv) \<Longrightarrow>
   (let k = max_element_loop xs i s sv in
      k < length (pre @ xs) \<and> (\<forall>j < length (pre @ xs). (pre @ xs) ! j \<le> (pre @ xs) ! k) \<and>
      (\<forall>j < k. (pre @ xs) ! j < (pre @ xs) ! k))"
proof (induction xs arbitrary: pre s sv i)
  case Nil
  then show ?case by (simp add: Let_def)
next
  case (Cons x xs)
  let ?ys = "pre @ x # xs"
  have xi: "?ys ! i = x" using Cons.prems(3) by simp
  have c: "Suc i = length (pre @ [x])" using Cons.prems(3) by simp
  show ?case
  proof (cases "sv < x")
    case True
    have a: "i < length (pre @ [x])" using Cons.prems(3) by simp
    have b: "x = ((pre @ [x]) @ xs) ! i" using xi by simp
    have d: "\<forall>j < length (pre @ [x]). ((pre @ [x]) @ xs) ! j \<le> x"
    proof (intro allI impI)
      fix j assume "j < length (pre @ [x])"
      then consider "j < length pre" | "j = i" using Cons.prems(3) by force
      then show "((pre @ [x]) @ xs) ! j \<le> x"
      proof cases
        case 1
        then have "?ys ! j \<le> sv" using Cons.prems(4) by blast
        then show ?thesis using True by simp
      next
        case 2
        then show ?thesis using xi by simp
      qed
    qed
    have e: "\<forall>j < i. ((pre @ [x]) @ xs) ! j < x"
    proof (intro allI impI)
      fix j assume "j < i"
      then have "j < length pre" using Cons.prems(3) by simp
      then have "?ys ! j \<le> sv" using Cons.prems(4) by blast
      then show "((pre @ [x]) @ xs) ! j < x" using True by simp
    qed
    from Cons.IH [OF a b c d e] True show ?thesis by (simp add: Let_def)
  next
    case False
    have a: "s < length (pre @ [x])" using Cons.prems(1) by simp
    have b: "sv = ((pre @ [x]) @ xs) ! s" using Cons.prems(2) by simp
    have d: "\<forall>j < length (pre @ [x]). ((pre @ [x]) @ xs) ! j \<le> sv"
    proof (intro allI impI)
      fix j assume "j < length (pre @ [x])"
      then consider "j < length pre" | "j = i" using Cons.prems(3) by force
      then show "((pre @ [x]) @ xs) ! j \<le> sv"
      proof cases
        case 1
        then show ?thesis using Cons.prems(4) by simp
      next
        case 2
        then show ?thesis using xi False by simp
      qed
    qed
    have e: "\<forall>j < s. ((pre @ [x]) @ xs) ! j < sv" using Cons.prems(5) by simp
    from Cons.IH [OF a b c d e] False show ?thesis by (simp add: Let_def)
  qed
qed

lemma max_element_first_max:
  "xs \<noteq> [] \<Longrightarrow>
   max_element xs < length xs \<and> (\<forall>j < length xs. xs ! j \<le> xs ! max_element xs) \<and>
   (\<forall>j < max_element xs. xs ! j < xs ! max_element xs)"
proof -
  assume "xs \<noteq> []"
  then obtain x rest where xs: "xs = x # rest" by (cases xs) auto
  have "let k = max_element_loop rest 1 0 x in
      k < length ([x] @ rest) \<and> (\<forall>j < length ([x] @ rest). ([x] @ rest) ! j \<le> ([x] @ rest) ! k) \<and>
      (\<forall>j < k. ([x] @ rest) ! j < ([x] @ rest) ! k)"
    by (rule max_element_loop_inv) auto
  then show ?thesis by (simp add: xs max_element_def Let_def)
qed

subsection \<open>Lengths\<close>

lemma length_penalize_token [simp]: "length (penalize_token fo p tok l) = length l"
  by (simp add: penalize_token_def)

lemma length_subtract_penalties [simp]: "length (subtract_penalties fo cfg c tok l) = length l"
  by (simp add: subtract_penalties_def)

lemma length_fold_penalize [simp]: "length (fold (penalize_token fo p) w l) = length l"
  by (induction w arbitrary: l) auto

lemma length_fold_subtract [simp]:
  "length (fold (\<lambda>tok. subtract_penalties fo cfg (f tok) tok) w l) = length l"
  by (induction w arbitrary: l) auto

lemma length_apply_repetition_penalty [simp]:
  "length (apply_repetition_penalty fo cfg l recent) = length l"
  by (simp add: apply_repetition_penalty_def Let_def)

lemma length_apply_temperature [simp]: "length (apply_temperature fo cfg l) = length l"
  by (simp add: apply_temperature_def)

lemma length_apply_top_k [simp]: "length (apply_top_k fo cfg l) = length l"
  by (simp add: apply_top_k_def Let_def)

subsection \<open>Filters keep a maximum\<close>

text \<open>
  \<open>keeps_max low l l'\<close>: the array \<open>l'\<close> is \<open>l\<close> with some positions overwritten by \<open>low\<close>,
  and a position holding a maximum of \<open>l\<close> is not overwritten.
\<close>

definition keeps_max :: "'f::linorder \<Rightarrow> 'f list \<Rightarrow> 'f list \<Rightarrow> bool" where
  "keeps_max low l l' \<longleftrightarrow>
     length l' = length l \<and> (\<forall>j < length l. l' ! j = l ! j \<or> l' ! j = low) \<and>
     (\<exists>m < length l. (\<forall>j < length l. l ! j \<le> l ! m) \<and> l' ! m = l ! m)"

lemma keeps_max_argmax:
  assumes low: "\<forall>x. low \<le> x" and km: "keeps_max low l l'"
    and k: "k < length l'" and mx: "\<forall>j < length l'. l' ! j \<le> l' ! k"
  shows "\<forall>j < length l. l ! j \<le> l ! k"
proof (intro allI impI)
  fix j assume j: "j < length l"
  from km obtain m where m: "m < length l" "\<forall>j < length l. l ! j \<le> l ! m" "l' ! m = l ! m"
    and len: "length l' = length l" and alt: "\<forall>j < length l. l' ! j = l ! j \<or> l' ! j = low"
    by (auto simp: keeps_max_def)
  have ge: "l ! m \<le> l' ! k" using mx m(1,3) len by metis
  have "l' ! k \<le> l ! k"
  proof -
    from alt k len have "l' ! k = l ! k \<or> l' ! k = low" by simp
    then show ?thesis using low by auto
  qed
  with ge have "l ! m \<le> l ! k" by simp
  moreover have "l ! j \<le> l ! m" using m(2) j by simp
  ultimately show "l ! j \<le> l ! k" by simp
qed

lemma keeps_max_refl: "l \<noteq> [] \<Longrightarrow> keeps_max low l l"
  unfolding keeps_max_def using max_element_first_max [of l] by auto

lemma keeps_max_top_k: "l \<noteq> [] \<Longrightarrow> keeps_max (neg_inf fo) l (apply_top_k fo cfg l)"
proof (cases "top_k cfg \<le> 0 \<or> top_k cfg \<ge> int (length l)")
  case True
  assume "l \<noteq> []"
  then show ?thesis using True by (simp add: apply_top_k_def keeps_max_refl)
next
  case False
  assume ne: "l \<noteq> []"
  let ?t = "rev (sort l) ! (nat (top_k cfg) - 1)"
  have "nat (top_k cfg) - 1 < length l" using False by linarith
  then have "nat (top_k cfg) - 1 < length (rev (sort l))" by simp
  then have "?t \<in> set (rev (sort l))" by (rule nth_mem)
  then have "?t \<in> set l" by simp
  then obtain j0 where j0: "j0 < length l" "l ! j0 = ?t" by (auto simp: in_set_conv_nth)
  let ?m = "max_element l"
  have m: "?m < length l" "\<forall>j < length l. l ! j \<le> l ! ?m"
    using max_element_first_max [OF ne] by auto
  have "?t \<le> l ! ?m" using m(2) j0 by metis
  then have keep: "\<not> l ! ?m < ?t" by simp
  have eq: "apply_top_k fo cfg l = map (\<lambda>x. if x < ?t then neg_inf fo else x) l"
    using False by (simp add: apply_top_k_def Let_def)
  show ?thesis unfolding keeps_max_def eq using m keep by auto
qed

lemma fold_overwrite:
  "length (fold (\<lambda>li l. l[snd li := low]) ps l) = length l \<and>
   (\<forall>j < length l. fold (\<lambda>li l. l[snd li := low]) ps l ! j =
      (if j \<in> snd ` set ps then low else l ! j))"
proof (induction ps arbitrary: l)
  case Nil
  then show ?case by simp
next
  case (Cons p ps)
  have "length (fold (\<lambda>li l. l[snd li := low]) ps (l[snd p := low])) = length l"
    using Cons.IH [of "l[snd p := low]"] by simp
  moreover have "\<forall>j < length l. fold (\<lambda>li l. l[snd li := low]) ps (l[snd p := low]) ! j =
      (if j \<in> snd ` set (p # ps) then low else l ! j)"
    using Cons.IH [of "l[snd p := low]"] by (auto simp: nth_list_update)
  ultimately show ?case by simp
qed

lemma cutoff_loop_pos: "1 \<le> n \<Longrightarrow> 1 \<le> cutoff_loop fo p t probs i c n"
  by (induction probs arbitrary: i c) (auto simp: Let_def)

lemma set_zip_index: "set (zip l [0 ..< length l]) = {(l ! i, i) | i. i < length l}"
  by (auto simp: set_zip)

lemma keeps_max_top_p:
  assumes srt: "sorts_descending (std_sort env)" and ne: "l \<noteq> []"
  shows "\<exists>l'. apply_top_p env cfg l = Inr l' \<and> keeps_max (neg_inf (ops env)) l l'"
proof (cases "top_p cfg \<ge> fone (ops env)")
  case True
  then show ?thesis using ne by (simp add: apply_top_p_def keeps_max_refl)
next
  case False
  let ?Z = "zip l [0 ..< length l]"
  let ?S = "std_sort env ?Z"
  let ?low = "neg_inf (ops env)"
  have ms: "mset ?S = mset ?Z" and sw: "sorted_wrt (\<lambda>a b. fst b \<le> fst a) ?S"
    using srt by (auto simp: sorts_descending_def)
  have setS: "set ?S = {(l ! i, i) | i. i < length l}"
    using mset_eq_setD [OF ms] by (simp only: set_zip_index)
  have lenS: "length ?S = length l" using mset_eq_length [OF ms] by simp
  then have Sne: "?S \<noteq> []" using ne by auto
  then obtain h T where S: "?S = h # T" by (cases ?S) auto
  have "mset (map snd ?S) = mset (map snd ?Z)" using ms by (metis mset_map)
  moreover have "map snd ?Z = [0 ..< length l]" by simp
  ultimately have "mset (map snd ?S) = mset [0 ..< length l]" by simp
  then have dist: "distinct (map snd ?S)"
    using mset_eq_imp_distinct_iff [of "map snd ?S" "[0 ..< length l]"] by simp
  have hin: "h \<in> set ?S" using S by simp
  then obtain m where m: "m < length l" "h = (l ! m, m)" using setS by auto
  have maxm: "\<forall>j < length l. l ! j \<le> l ! m"
  proof (intro allI impI)
    fix j assume "j < length l"
    then have "(l ! j, j) \<in> set ?S" using setS by auto
    then have "(l ! j, j) = h \<or> (l ! j, j) \<in> set T" using S by simp
    then show "l ! j \<le> l ! m"
    proof
      assume "(l ! j, j) = h"
      then show ?thesis using m(2) by simp
    next
      assume "(l ! j, j) \<in> set T"
      then have "fst (l ! j, j) \<le> fst h" using sw S by auto
      then show ?thesis using m(2) by simp
    qed
  qed
  define probs where "probs = map (\<lambda>li. fexp (ops env) (fsub (ops env) (fst li) (fst (hd ?S)))) ?S"
  define sum_probs where "sum_probs = fold (\<lambda>prob acc. fadd (ops env) acc prob) probs (fzero (ops env))"
  define c where "c = cutoff_loop (ops env) (top_p cfg) sum_probs probs 0 (fzero (ops env)) (length l)"
  have cpos: "1 \<le> c" unfolding c_def using ne by (intro cutoff_loop_pos) (cases l, auto)
  let ?D = "drop c ?S"
  let ?l' = "fold (\<lambda>li l. l[snd li := ?low]) ?D l"
  have res: "apply_top_p env cfg l = Inr ?l'"
    using False ne by (simp add: apply_top_p_def Let_def c_def sum_probs_def probs_def)
  have "set ?D \<subseteq> set T"
  proof -
    have "?D = drop (c - 1) T" using cpos S by (cases c) auto
    then show ?thesis by (metis set_drop_subset)
  qed
  moreover have "m \<notin> snd ` set T" using dist S m(2) by auto
  ultimately have mnot: "m \<notin> snd ` set ?D" by auto
  have fo: "length ?l' = length l"
    "\<forall>j < length l. ?l' ! j = (if j \<in> snd ` set ?D then ?low else l ! j)"
    using fold_overwrite [of ?low ?D l] by auto
  have "keeps_max ?low l ?l'"
    unfolding keeps_max_def using fo m(1) maxm mnot by auto
  with res show ?thesis by blast
qed

lemma apply_temperature_greedy:
  "temperature cfg \<le> fzero fo \<Longrightarrow> apply_temperature fo cfg l = l"
  by (simp add: apply_temperature_def)

lemma sample_on_greedy:
  assumes greedy: "temperature (sampler_config smp) \<le> fzero (ops env)"
    and low: "\<forall>x. neg_inf (ops env) \<le> x"
    and srt: "sorts_descending (std_sort env)"
    and ne: "logits \<noteq> []" and small: "length logits < 2 ^ 31"
  shows "\<exists>k l'. sample_on env smp logits last_tokens = Inr (int k, l', smp) \<and>
           k < length logits \<and>
           (\<forall>j < length logits.
              apply_repetition_penalty (ops env) (sampler_config smp) logits last_tokens ! j
              \<le> apply_repetition_penalty (ops env) (sampler_config smp) logits last_tokens ! k)"
proof -
  let ?cfg = "sampler_config smp"
  let ?l1 = "apply_repetition_penalty (ops env) ?cfg logits last_tokens"
  let ?l3 = "apply_top_k (ops env) ?cfg ?l1"
  have l1ne: "?l1 \<noteq> []" using ne by (metis length_apply_repetition_penalty length_0_conv)
  have l3ne: "?l3 \<noteq> []" using l1ne by (metis length_apply_top_k length_0_conv)
  have k13: "keeps_max (neg_inf (ops env)) ?l1 ?l3" by (rule keeps_max_top_k [OF l1ne])
  obtain l4 where l4: "apply_top_p env ?cfg ?l3 = Inr l4"
    and k34: "keeps_max (neg_inf (ops env)) ?l3 l4"
    using keeps_max_top_p [OF srt l3ne] by blast
  have len4: "length l4 = length logits" using k34 by (simp add: keeps_max_def)
  then have l4ne: "l4 \<noteq> []" using ne by auto
  let ?k = "max_element l4"
  have k: "?k < length l4" "\<forall>j < length l4. l4 ! j \<le> l4 ! ?k"
    using max_element_first_max [OF l4ne] by auto
  have m3: "\<forall>j < length ?l3. ?l3 ! j \<le> ?l3 ! ?k"
    by (rule keeps_max_argmax [OF low k34 k])
  have k3: "?k < length ?l3" using k(1) len4 by simp
  have m1: "\<forall>j < length ?l1. ?l1 ! j \<le> ?l1 ! ?k"
    by (rule keeps_max_argmax [OF low k13 k3 m3])
  have "?k < 2 ^ 31" using k(1) len4 small by simp
  then have cast: "int_of_size_t ?k = int ?k" by (rule int_of_size_t_small)
  have "sample_on env smp logits last_tokens = Inr (int ?k, l4, smp)"
    using greedy l4 cast by (simp add: sample_on_def Let_def apply_temperature_greedy)
  then show ?thesis using k(1) len4 m1 by auto
qed

lemma sort_desc_sorts: "sorts_descending sort_desc"
proof -
  have ms1: "\<And>a (xs :: ('a::linorder \<times> nat) list). mset (insert_desc a xs) = {#a#} + mset xs"
  proof -
    fix a and xs :: "('a \<times> nat) list"
    show "mset (insert_desc a xs) = {#a#} + mset xs" by (induction xs) auto
  qed
  have set1: "\<And>a (xs :: ('a::linorder \<times> nat) list). set (insert_desc a xs) = insert a (set xs)"
  proof -
    fix a and xs :: "('a \<times> nat) list"
    show "set (insert_desc a xs) = insert a (set xs)" by (induction xs) auto
  qed
  have sw1: "\<And>a (xs :: ('a::linorder \<times> nat) list).
      sorted_wrt (\<lambda>a b. fst b \<le> fst a) xs \<Longrightarrow> sorted_wrt (\<lambda>a b. fst b \<le> fst a) (insert_desc a xs)"
  proof -
    fix a and xs :: "('a \<times> nat) list"
    assume "sorted_wrt (\<lambda>a b. fst b \<le> fst a) xs"
    then show "sorted_wrt (\<lambda>a b. fst b \<le> fst a) (insert_desc a xs)"
      by (induction xs) (auto simp: set1)
  qed
  have "\<And>xs :: ('a::linorder \<times> nat) list.
      mset (sort_desc xs) = mset xs \<and> sorted_wrt (\<lambda>a b. fst b \<le> fst a) (sort_desc xs)"
  proof -
    fix xs :: "('a \<times> nat) list"
    show "mset (sort_desc xs) = mset xs \<and> sorted_wrt (\<lambda>a b. fst b \<le> fst a) (sort_desc xs)"
      unfolding sort_desc_def by (induction xs) (auto simp: ms1 sw1)
  qed
  then show ?thesis unfolding sorts_descending_def by blast
qed

section \<open>Claims about KVCacheManager\<close>

text \<open>
  C7. For every token history \<open>H\<close> stored by \<^verbatim>\<open>update\<close> and every query \<open>Q\<close>,
  \<^verbatim>\<open>check_reusable(Q)\<close> is exactly the length of the longest common prefix of \<open>H\<close>
  and \<open>Q\<close> (so never more). \<open>H\<close> ranges over the histories whose length fits the
  \<^verbatim>\<open>int\<close> counter \<^verbatim>\<open>cached_tokens_\<close>.
\<close>

theorem check_reusable_is_lcp:
  "length H < 2 ^ 31 \<Longrightarrow>
   check_reusable (update c H) Q = int (length (longest_common_prefix H Q))"
proof -
  assume h: "length H < 2 ^ 31"
  have sym: "longest_common_prefix Q H = longest_common_prefix H Q"
    by (rule lcp_sym)
  have le: "length (longest_common_prefix H Q) \<le> length H"
    using length_lcp_le [of Q H] by (simp add: sym)
  show ?thesis
    using le by (simp add: check_reusable_def update_def Let_def match_loop_start
        int_of_size_t_small [OF h] sym)
qed

theorem check_reusable_is_lcp_witness:
  "length [1, 2, 3, 4, 5 :: int] < 2 ^ 31 \<and>
   check_reusable (update \<lparr>kv_token_history = [], kv_cached_tokens = 0\<rparr> [1, 2, 3, 4, 5])
     [1, 2, 3, 6, 7] = 3"
  using check_reusable_is_lcp [of "[1, 2, 3, 4, 5]"
      "\<lparr>kv_token_history = [], kv_cached_tokens = 0\<rparr>" "[1, 2, 3, 6, 7]"]
  by simp

section \<open>Claims about PrefixCacheManager\<close>

text \<open>
  C5 (as amended). For every query \<open>T\<close> and every cache state that calls of
  \<^verbatim>\<open>add_prefix\<close>, \<^verbatim>\<open>get_entry\<close> and \<^verbatim>\<open>clear\<close> produce from a manager constructed with a
  capacity below \<open>2^31\<close>, \<^verbatim>\<open>find_prefix(T)\<close> returns the index of the entry with the
  longest token sequence among the entries whose tokens are non-empty and a prefix of
  \<open>T\<close>, ties going to the most recent \<open>last_access\<close>, and returns \<open>-1\<close> when no entry
  with non-empty tokens is a prefix of \<open>T\<close>. (In these states no two entries hold the
  same non-empty token sequence, so two matching entries never have the same length.)
\<close>

theorem find_prefix_longest_nonempty:
  "n < 2 ^ 31 \<Longrightarrow>
   find_prefix_spec_nonempty (entries (run_calls (PrefixCacheManager_new n) calls)) T
     (find_prefix (run_calls (PrefixCacheManager_new n) calls) T)"
  by (intro find_prefix_meets_spec cache_inv_run_calls cache_inv_new)

theorem find_prefix_longest_nonempty_witness:
  "(10::nat) < 2 ^ 31 \<and>
   entries (run_calls (PrefixCacheManager_new 10)
      [AddPrefix [1] [] 7, AddPrefix [] [] 8, AddPrefix [1, 2] [] 9, AddPrefix [9] [] 10,
       GetEntry 0 11]) =
     [\<lparr>tokens = [1], cache_data = [], last_access_time = 11, access_count = 2\<rparr>,
      \<lparr>tokens = [], cache_data = [], last_access_time = 8, access_count = 1\<rparr>,
      \<lparr>tokens = [1, 2], cache_data = [], last_access_time = 9, access_count = 1\<rparr>,
      \<lparr>tokens = [9], cache_data = [], last_access_time = 10, access_count = 1\<rparr>] \<and>
   find_prefix (run_calls (PrefixCacheManager_new 10)
      [AddPrefix [1] [] 7, AddPrefix [] [] 8, AddPrefix [1, 2] [] 9, AddPrefix [9] [] 10,
       GetEntry 0 11]) [1, 2, 3] = 2 \<and>
   find_prefix_spec_nonempty
     (entries (run_calls (PrefixCacheManager_new 10)
      [AddPrefix [1] [] 7, AddPrefix [] [] 8, AddPrefix [1, 2] [] 9, AddPrefix [9] [] 10,
       GetEntry 0 11])) [1, 2, 3] 2"
proof -
  have h: "(10::nat) < 2 ^ 31" by simp
  have e: "entries (run_calls (PrefixCacheManager_new 10)
      [AddPrefix [1] [] 7, AddPrefix [] [] 8, AddPrefix [1, 2] [] 9, AddPrefix [9] [] 10,
       GetEntry 0 11]) =
     [\<lparr>tokens = [1], cache_data = [], last_access_time = 11, access_count = 2\<rparr>,
      \<lparr>tokens = [], cache_data = [], last_access_time = 8, access_count = 1\<rparr>,
      \<lparr>tokens = [1, 2], cache_data = [], last_access_time = 9, access_count = 1\<rparr>,
      \<lparr>tokens = [9], cache_data = [], last_access_time = 10, access_count = 1\<rparr>]"
    by (simp add: run_calls_def add_prefix_def PrefixCacheManager_new_def find_prefix_def
        get_entry_def vector_at_def match_loop.simps int_of_size_t_def size_t_of_int_def Let_def)
  have f: "find_prefix (run_calls (PrefixCacheManager_new 10)
      [AddPrefix [1] [] 7, AddPrefix [] [] 8, AddPrefix [1, 2] [] 9, AddPrefix [9] [] 10,
       GetEntry 0 11]) [1, 2, 3] = 2"
    by (simp add: run_calls_def add_prefix_def PrefixCacheManager_new_def find_prefix_def
        get_entry_def vector_at_def match_loop.simps int_of_size_t_def size_t_of_int_def Let_def)
  show ?thesis
    using h e f find_prefix_longest_nonempty [OF h, of
      "[AddPrefix [1] [] 7, AddPrefix [] [] 8, AddPrefix [1, 2] [] 9, AddPrefix [9] [] 10,
       GetEntry 0 11]" "[1, 2, 3]"]
    by simp
qed

text \<open>
  C5, the claim as written, refuted. After \<^verbatim>\<open>add_prefix({}, blob)\<close> on a fresh cache the
  only entry has no tokens, so its tokens are a prefix of \<open>[1]\<close> and the claim asks for
  index \<open>0\<close>; the code returns \<open>-1\<close>.
\<close>

theorem find_prefix_spec_counterexample:
  "\<not> find_prefix_spec
       (entries (run_calls (PrefixCacheManager_new 10) [AddPrefix [] [0] 100])) [1]
       (find_prefix (run_calls (PrefixCacheManager_new 10) [AddPrefix [] [0] 100]) [1])"
  by (simp add: find_prefix_spec_def run_calls_def add_prefix_def PrefixCacheManager_new_def
      find_prefix_def match_loop.simps int_of_size_t_def Let_def)

text \<open>
  C8 (as amended). For a cache constructed with capacity \<open>n \<ge> 1\<close>, after any sequence of
  \<^verbatim>\<open>add_prefix\<close> calls the number of stored entries is at most \<open>n\<close>. When
  \<^verbatim>\<open>add_prefix\<close> inserts (it found no entry with the same token sequence) into a
  non-empty cache that is at capacity, the entry removed is the first one with the
  smallest \<^verbatim>\<open>last_access_time\<close>, and the new entry is appended after the removal.
\<close>

theorem prefix_cache_bounded_lru:
  "(1 \<le> n \<longrightarrow> length (entries (add_all (PrefixCacheManager_new n) calls)) \<le> n) \<and>
   (entries c \<noteq> [] \<and> max_entries c \<le> length (entries c) \<and>
    \<not> (0 \<le> find_prefix c T \<and>
       length (tokens (entries c ! nat (find_prefix c T))) = length T) \<longrightarrow>
    (\<exists>k < length (entries c).
       (\<forall>j < length (entries c).
          last_access_time (entries c ! k) \<le> last_access_time (entries c ! j)) \<and>
       (\<forall>j < k. last_access_time (entries c ! k) < last_access_time (entries c ! j)) \<and>
       entries (add_prefix c T d now) =
         erase k (entries c) @
         [\<lparr>tokens = T, cache_data = d, last_access_time = now, access_count = 1\<rparr>]))"
proof (intro conjI impI)
  assume "1 \<le> n"
  then show "length (entries (add_all (PrefixCacheManager_new n) calls)) \<le> n"
    using add_all_bounded [of "PrefixCacheManager_new n" calls]
    by (simp add: PrefixCacheManager_new_def)
next
  assume h: "entries c \<noteq> [] \<and> max_entries c \<le> length (entries c) \<and>
    \<not> (0 \<le> find_prefix c T \<and>
       length (tokens (entries c ! nat (find_prefix c T))) = length T)"
  let ?ts = "map last_access_time (entries c)"
  let ?k = "min_element ?ts"
  have ne: "?ts \<noteq> []" using h by simp
  have k: "?k < length ?ts" and least: "\<forall>j < length ?ts. ?ts ! ?k \<le> ?ts ! j"
    and first: "\<forall>j < ?k. ?ts ! ?k < ?ts ! j"
    using min_element_first_min [OF ne] by blast+
  have kl: "?k < length (entries c)" using k by simp
  have a: "\<forall>j < length (entries c).
      last_access_time (entries c ! ?k) \<le> last_access_time (entries c ! j)"
    using least kl by simp
  have b: "\<forall>j < ?k. last_access_time (entries c ! ?k) < last_access_time (entries c ! j)"
    using first kl by simp
  have e: "entries (add_prefix c T d now) =
      erase ?k (entries c) @
      [\<lparr>tokens = T, cache_data = d, last_access_time = now, access_count = 1\<rparr>]"
    using h by (auto simp: add_prefix_def Let_def evict_lru_def)
  show "\<exists>k < length (entries c).
       (\<forall>j < length (entries c).
          last_access_time (entries c ! k) \<le> last_access_time (entries c ! j)) \<and>
       (\<forall>j < k. last_access_time (entries c ! k) < last_access_time (entries c ! j)) \<and>
       entries (add_prefix c T d now) =
         erase k (entries c) @
         [\<lparr>tokens = T, cache_data = d, last_access_time = now, access_count = 1\<rparr>]"
    using kl a b e by blast
qed

theorem prefix_cache_bounded_lru_witness:
  "1 \<le> (2::nat) \<and>
   length (entries (add_all (PrefixCacheManager_new 2)
      [([1], [1], 20), ([2], [2], 10), ([3], [3], 30)])) \<le> 2 \<and>
   entries (add_all (PrefixCacheManager_new 2) [([1], [1], 20), ([2], [2], 10)]) \<noteq> [] \<and>
   max_entries (add_all (PrefixCacheManager_new 2) [([1], [1], 20), ([2], [2], 10)])
     \<le> length (entries (add_all (PrefixCacheManager_new 2) [([1], [1], 20), ([2], [2], 10)])) \<and>
   find_prefix (add_all (PrefixCacheManager_new 2) [([1], [1], 20), ([2], [2], 10)]) [3] = - 1 \<and>
   entries (add_prefix (add_all (PrefixCacheManager_new 2) [([1], [1], 20), ([2], [2], 10)])
      [3] [3] 30) =
     [\<lparr>tokens = [1], cache_data = [1], last_access_time = 20, access_count = 1\<rparr>,
      \<lparr>tokens = [3], cache_data = [3], last_access_time = 30, access_count = 1\<rparr>]"
  using prefix_cache_bounded_lru [of 2 "[([1], [1], 20), ([2], [2], 10), ([3], [3], 30)]"
      "add_all (PrefixCacheManager_new 2) [([1], [1], 20), ([2], [2], 10)]" "[3]" "[3]" 30]
  by (simp add: add_all_def add_prefix_def PrefixCacheManager_new_def find_prefix_def
      evict_lru_def min_element_def erase_def match_loop.simps int_of_size_t_def Let_def)

text \<open>
  C8, the claim as written, refuted: a cache constructed with capacity \<open>0\<close> holds one
  entry after the first \<^verbatim>\<open>add_prefix\<close> (\<^verbatim>\<open>evict_lru\<close> returns at once on the empty
  vector and the entry is appended all the same).
\<close>

theorem prefix_cache_capacity_counterexample:
  "\<not> length (entries (add_all (PrefixCacheManager_new 0) [([1], [0], 100)]))
       \<le> max_entries (PrefixCacheManager_new 0)"
  by (simp add: add_all_def add_prefix_def PrefixCacheManager_new_def find_prefix_def
      evict_lru_def Let_def)

text \<open>
  C10. \<^verbatim>\<open>get_entry(i)\<close> never reads outside the entry vector, for any index and any
  cache. For a cache whose entry count fits the \<^verbatim>\<open>int\<close> the index is compared with
  (fewer than \<open>2^31\<close> entries), it returns the null pointer exactly when \<open>i\<close> is outside
  \<open>[0, size)\<close>, and for an index in range a pointer to entry \<open>i\<close>, whose tokens and
  blob are untouched.
\<close>

theorem get_entry_null_iff_out_of_range:
  "get_entry c i now \<noteq> Inl OutOfBounds \<and>
   (length (entries c) < 2 ^ 31 \<longrightarrow>
     (if i < 0 \<or> int (length (entries c)) \<le> i
      then get_entry c i now = Inr (None, c)
      else \<exists>c'. get_entry c i now = Inr (Some (nat i), c') \<and> nat i < length (entries c) \<and>
             length (entries c') = length (entries c) \<and>
             tokens (entries c' ! nat i) = tokens (entries c ! nat i) \<and>
             cache_data (entries c' ! nat i) = cache_data (entries c ! nat i)))"
proof (cases "i < 0 \<or> i \<ge> int_of_size_t (length (entries c))")
  case True
  then have g: "get_entry c i now = Inr (None, c)" by (simp add: get_entry_def)
  show ?thesis using g True by (auto simp: int_of_size_t_small)
next
  case False
  then have i0: "0 \<le> i" and ilt: "i < int_of_size_t (length (entries c))" by auto
  have "i < 2 ^ 31" using ilt int_of_size_t_bound [of "length (entries c)"] by linarith
  moreover have "(2::int) ^ 31 < 2 ^ 64" by simp
  ultimately have "i < 2 ^ 64" by (rule less_trans)
  then have si: "size_t_of_int i = nat i" using i0 by (simp add: size_t_of_int_small)
  have inb: "nat i < length (entries c)"
    using ilt int_of_size_t_le [of "length (entries c)"] i0 by linarith
  have g: "get_entry c i now =
      Inr (Some (nat i), c\<lparr>entries := (entries c)[nat i :=
             (entries c ! nat i)\<lparr>last_access_time := now,
                access_count := access_count (entries c ! nat i) + 1\<rparr>]\<rparr>)"
    using False inb by (simp add: get_entry_def si vector_at_def)
  show ?thesis using g False inb by (auto simp: int_of_size_t_small)
qed

theorem get_entry_null_iff_out_of_range_witness:
  "length (entries \<lparr>max_entries = 2, entries =
      [\<lparr>tokens = [2], cache_data = [2], last_access_time = 20, access_count = 1\<rparr>,
       \<lparr>tokens = [3], cache_data = [3], last_access_time = 30, access_count = 1\<rparr>]\<rparr>) < 2 ^ 31 \<and>
   get_entry \<lparr>max_entries = 2, entries =
      [\<lparr>tokens = [2], cache_data = [2], last_access_time = 20, access_count = 1\<rparr>,
       \<lparr>tokens = [3], cache_data = [3], last_access_time = 30, access_count = 1\<rparr>]\<rparr> 1 77 =
     Inr (Some 1, \<lparr>max_entries = 2, entries =
      [\<lparr>tokens = [2], cache_data = [2], last_access_time = 20, access_count = 1\<rparr>,
       \<lparr>tokens = [3], cache_data = [3], last_access_time = 77, access_count = 2\<rparr>]\<rparr>) \<and>
   get_entry \<lparr>max_entries = 2, entries =
      [\<lparr>tokens = [2], cache_data = [2], last_access_time = 20, access_count = 1\<rparr>,
       \<lparr>tokens = [3], cache_data = [3], last_access_time = 30, access_count = 1\<rparr>]\<rparr> 2 77 =
     Inr (None, \<lparr>max_entries = 2, entries =
      [\<lparr>tokens = [2], cache_data = [2], last_access_time = 20, access_count = 1\<rparr>,
       \<lparr>tokens = [3], cache_data = [3], last_access_time = 30, access_count = 1\<rparr>]\<rparr>)"
  using get_entry_null_iff_out_of_range [of "\<lparr>max_entries = 2, entries =
      [\<lparr>tokens = [2], cache_data = [2], last_access_time = 20, access_count = 1\<rparr>,
       \<lparr>tokens = [3], cache_data = [3], last_access_time = 30, access_count = 1\<rparr>]\<rparr>" 1 77]
  by (simp add: get_entry_def vector_at_def int_of_size_t_def size_t_of_int_def)

section \<open>Claims about LLMEngine\<close>

text \<open>
  C1. The claim: after \<^verbatim>\<open>save_session(path)\<close> succeeds and \<^verbatim>\<open>load_session(path)\<close> returns
  true, the token history equals the saved one. The code at the history \<open>[1, 2, 3]\<close>:
  the file holds the length and the three tokens, \<^verbatim>\<open>load_session\<close> reads them, then
  calls \<^verbatim>\<open>clear_cache\<close>, which empties the history it has just read; it returns true
  with an empty history.
\<close>

theorem load_session_after_save_loses_history:
  "save_session
     (\<lparr>initialized = True, n_ctx = 16, token_history = [1, 2, 3], n_past = 3, backend = [],
       stop_flag = False,
       stats = \<lparr>tokens_generated = 0, generation_time_ms = 0, tokens_per_second = 0,
                 prompt_tokens = 0, context_tokens = 0\<rparr>\<rparr> :: real LLMEngine)
     ''session.bin'' (\<lambda>p. True) Map.empty
   = (True, [''session.bin'' \<mapsto> [3, 0, 0, 0, 0, 0, 0, 0, 1, 0, 0, 0, 2, 0, 0, 0, 3, 0, 0, 0]]) \<and>
   load_session
     (\<lparr>initialized = True, n_ctx = 16, token_history = [1, 2, 3], n_past = 3, backend = [],
       stop_flag = False,
       stats = \<lparr>tokens_generated = 0, generation_time_ms = 0, tokens_per_second = 0,
                 prompt_tokens = 0, context_tokens = 0\<rparr>\<rparr> :: real LLMEngine)
     ''session.bin''
     [''session.bin'' \<mapsto> [3, 0, 0, 0, 0, 0, 0, 0, 1, 0, 0, 0, 2, 0, 0, 0, 3, 0, 0, 0]] 0 1000
   = (Inr True,
      \<lparr>initialized = True, n_ctx = 16, token_history = [], n_past = 0, backend = [KvClear],
       stop_flag = False,
       stats = \<lparr>tokens_generated = 0, generation_time_ms = 0, tokens_per_second = 0,
                 prompt_tokens = 0, context_tokens = 0\<rparr>\<rparr>)"
  by (simp add: save_session_def load_session_def clear_cache_def u64_bytes_def i32_bytes_def
      le_bytes_numeral Let_def)

text \<open>
  C2. The claim: whenever \<^verbatim>\<open>generate_stream\<close> returns normally, also after a decode
  error inside the loop, the length of the token history equals \<open>n_past\<close>. The code
  on a one-token prompt, with a sampled token \<open>7\<close> whose single-token decode fails: the
  token has been appended to the history before the decode, the loop breaks without
  incrementing \<open>n_past\<close>, and the call returns with a history of length 2 and
  \<open>n_past = 1\<close>.
\<close>

theorem generate_stream_decode_error_history_ahead:
  "generate_stream
     \<lparr>prompt_toks = [1], prompt_decode_ok = True,
      steps = (\<lambda>i. \<lparr>stop_requested = False, sampled = 7, decode_ok = False\<rparr>),
      is_eos_token = (\<lambda>t. t = 2), decode_token = (\<lambda>t. ''a''),
      duration_ms = (5::real), tokens_per_sec = (\<lambda>n ms. 200)\<rparr>
     \<lparr>max_tokens = 1, stop_sequences = [''</s>'']\<rparr> False
     \<lparr>initialized = True, n_ctx = 16, token_history = [], n_past = 0, backend = [],
      stop_flag = False,
      stats = \<lparr>tokens_generated = 0, generation_time_ms = 0, tokens_per_second = 0,
                prompt_tokens = 0, context_tokens = 0\<rparr>\<rparr>
   = (Inr ''a'',
      \<lparr>initialized = True, n_ctx = 16, token_history = [1, 7], n_past = 1,
       backend = [Decode [(1, 0, True)], Decode [(7, 1, True)]], stop_flag = False,
       stats = \<lparr>tokens_generated = 1, generation_time_ms = 5, tokens_per_second = 200,
                 prompt_tokens = 1, context_tokens = 1\<rparr>\<rparr>, [])"
  by (simp add: generate_stream_def generate_tail_def loop_body_def prompt_batch_def
      size_t_of_int_def int_of_size_t_def match_loop.simps Let_def)

text \<open>
  C4 (as amended). When the stop-sequence scan finds a stop sequence in the running
  result (the flag is not set and the sampled token is not an end token), the loop
  breaks at once: the result is truncated at the first occurrence, and nothing else
  changes. The token that completed the stop sequence is not appended to
  \<^verbatim>\<open>generated_tokens\<close> or to the token history, no batch is submitted to the backend,
  \<open>n_past\<close> is not incremented and the callback is not called for its piece.
\<close>

theorem loop_body_stop_sequence_breaks_before_append:
  "\<not> stop_flag (eng s) \<Longrightarrow> \<not> stop_requested (steps env i) \<Longrightarrow>
   \<not> is_eos_token env (sampled (steps env i)) \<Longrightarrow>
   check_stop (stop_sequences config)
     (result s @ decode_token env (sampled (steps env i))) = Some r \<Longrightarrow>
   loop_body env config cb i s = Break (s\<lparr>result := r\<rparr>)"
  by (simp add: loop_body_def Let_def)

theorem loop_body_stop_sequence_breaks_before_append_witness:
  "loop_body
     \<lparr>prompt_toks = [1], prompt_decode_ok = True,
      steps = (\<lambda>i. \<lparr>stop_requested = False, sampled = (if i = 0 then 7 else 8),
                     decode_ok = True\<rparr>),
      is_eos_token = (\<lambda>t. t = 2),
      decode_token = (\<lambda>t. if t = 7 then ''a'' else ''b''),
      duration_ms = (5::real), tokens_per_sec = (\<lambda>n ms. 200)\<rparr>
     \<lparr>max_tokens = 4, stop_sequences = [''ab'']\<rparr> True 1
     \<lparr>eng = \<lparr>initialized = True, n_ctx = 16, token_history = [1, 7], n_past = 2,
             backend = [Decode [(1, 0, True)], Decode [(7, 1, True)]], stop_flag = False,
             stats = \<lparr>tokens_generated = 0, generation_time_ms = 0, tokens_per_second = 0,
                       prompt_tokens = 1, context_tokens = 0\<rparr>\<rparr>,
      result = ''a'', generated_tokens = [7], callbacks = [(''a'', False)]\<rparr>
   = Break
     \<lparr>eng = \<lparr>initialized = True, n_ctx = 16, token_history = [1, 7], n_past = 2,
             backend = [Decode [(1, 0, True)], Decode [(7, 1, True)]], stop_flag = False,
             stats = \<lparr>tokens_generated = 0, generation_time_ms = 0, tokens_per_second = 0,
                       prompt_tokens = 1, context_tokens = 0\<rparr>\<rparr>,
      result = [], generated_tokens = [7], callbacks = [(''a'', False)]\<rparr>"
  using loop_body_stop_sequence_breaks_before_append [of
      "\<lparr>eng = \<lparr>initialized = True, n_ctx = 16, token_history = [1, 7], n_past = 2,
             backend = [Decode [(1, 0, True)], Decode [(7, 1, True)]], stop_flag = False,
             stats = \<lparr>tokens_generated = 0, generation_time_ms = 0, tokens_per_second = 0,
                       prompt_tokens = 1, context_tokens = 0\<rparr>\<rparr>,
      result = ''a'', generated_tokens = [7], callbacks = [(''a'', False)]\<rparr>"
      "\<lparr>prompt_toks = [1], prompt_decode_ok = True,
      steps = (\<lambda>i. \<lparr>stop_requested = False, sampled = (if i = 0 then 7 else 8),
                     decode_ok = True\<rparr>),
      is_eos_token = (\<lambda>t. t = 2),
      decode_token = (\<lambda>t. if t = 7 then ''a'' else ''b''),
      duration_ms = (5::real), tokens_per_sec = (\<lambda>n ms. 200)\<rparr>"
      1 "\<lparr>max_tokens = 4, stop_sequences = [''ab'']\<rparr>" "[]" True]
  by simp

text \<open>
  C4, the claim as written, refuted. Prompt \<open>[1]\<close>; the sampler returns \<open>7\<close> (piece
  \<open>a\<close>) and then \<open>8\<close> (piece \<open>b\<close>); the stop sequence is \<open>ab\<close>. Token \<open>8\<close> completes the
  stop sequence. When the call returns, \<open>8\<close> is not in the token history, no batch with
  it was submitted, \<open>n_past\<close> is 2 (prompt and token \<open>7\<close>) and one token counts as
  generated.
\<close>

theorem generate_stream_stop_sequence_counterexample:
  "generate_stream
     \<lparr>prompt_toks = [1], prompt_decode_ok = True,
      steps = (\<lambda>i. \<lparr>stop_requested = False, sampled = (if i = 0 then 7 else 8),
                     decode_ok = True\<rparr>),
      is_eos_token = (\<lambda>t. t = 2),
      decode_token = (\<lambda>t. if t = 7 then ''a'' else ''b''),
      duration_ms = (5::real), tokens_per_sec = (\<lambda>n ms. 200)\<rparr>
     \<lparr>max_tokens = 4, stop_sequences = [''ab'']\<rparr> True
     \<lparr>initialized = True, n_ctx = 16, token_history = [], n_past = 0, backend = [],
      stop_flag = False,
      stats = \<lparr>tokens_generated = 0, generation_time_ms = 0, tokens_per_second = 0,
                prompt_tokens = 0, context_tokens = 0\<rparr>\<rparr>
   = (Inr [],
      \<lparr>initialized = True, n_ctx = 16, token_history = [1, 7], n_past = 2,
       backend = [Decode [(1, 0, True)], Decode [(7, 1, True)]], stop_flag = False,
       stats = \<lparr>tokens_generated = 1, generation_time_ms = 5, tokens_per_second = 200,
                 prompt_tokens = 1, context_tokens = 2\<rparr>\<rparr>,
      [(''a'', False), ([], True)])"
  by (simp add: generate_stream_def generate_tail_def loop_body_def prompt_batch_def
      size_t_of_int_def int_of_size_t_def match_loop.simps Let_def gen_loop_numeral)

text \<open>
  C6 (as amended). \<^verbatim>\<open>generate_stream\<close> raises ContextOverflow exactly when the engine
  is initialized and the prompt has at least \<^verbatim>\<open>(size_t)n_ctx\<close> tokens. When it does,
  the engine is as before the call except that the cancellation flag is cleared and
  \<^verbatim>\<open>stats.prompt_tokens\<close> holds the token count of the rejected prompt: the other
  statistics, the token history, \<open>n_past\<close> and the backend are untouched.
\<close>

theorem generate_stream_overflow_state:
  "(fst (generate_stream env config cb e) = Inl ContextOverflow \<longleftrightarrow>
      initialized e \<and> size_t_of_int (n_ctx e) \<le> length (prompt_toks env)) \<and>
   (fst (generate_stream env config cb e) = Inl ContextOverflow \<longrightarrow>
      fst (snd (generate_stream env config cb e)) =
        e\<lparr>stop_flag := False,
          stats := (stats e)\<lparr>prompt_tokens := int_of_size_t (length (prompt_toks env))\<rparr>\<rparr>)"
  using generate_tail_no_error [of env config cb _ ContextOverflow]
  by (auto simp: generate_stream_def Let_def split: if_splits)

theorem generate_stream_overflow_state_witness:
  "fst (generate_stream
     \<lparr>prompt_toks = [1, 2, 3], prompt_decode_ok = True,
      steps = (\<lambda>i. \<lparr>stop_requested = False, sampled = 7, decode_ok = True\<rparr>),
      is_eos_token = (\<lambda>t. t = 2), decode_token = (\<lambda>t. ''a''),
      duration_ms = (5::real), tokens_per_sec = (\<lambda>n ms. 200)\<rparr>
     \<lparr>max_tokens = 4, stop_sequences = [''</s>'']\<rparr> False
     \<lparr>initialized = True, n_ctx = 2, token_history = [9], n_past = 1, backend = [],
      stop_flag = False,
      stats = \<lparr>tokens_generated = 4, generation_time_ms = 8, tokens_per_second = 500,
                prompt_tokens = 1, context_tokens = 5\<rparr>\<rparr>) = Inl ContextOverflow \<and>
   fst (snd (generate_stream
     \<lparr>prompt_toks = [1, 2, 3], prompt_decode_ok = True,
      steps = (\<lambda>i. \<lparr>stop_requested = False, sampled = 7, decode_ok = True\<rparr>),
      is_eos_token = (\<lambda>t. t = 2), decode_token = (\<lambda>t. ''a''),
      duration_ms = (5::real), tokens_per_sec = (\<lambda>n ms. 200)\<rparr>
     \<lparr>max_tokens = 4, stop_sequences = [''</s>'']\<rparr> False
     \<lparr>initialized = True, n_ctx = 2, token_history = [9], n_past = 1, backend = [],
      stop_flag = False,
      stats = \<lparr>tokens_generated = 4, generation_time_ms = 8, tokens_per_second = 500,
                prompt_tokens = 1, context_tokens = 5\<rparr>\<rparr>))
   = \<lparr>initialized = True, n_ctx = 2, token_history = [9], n_past = 1, backend = [],
      stop_flag = False,
      stats = \<lparr>tokens_generated = 4, generation_time_ms = 8, tokens_per_second = 500,
                prompt_tokens = 3, context_tokens = 5\<rparr>\<rparr>"
  using generate_stream_overflow_state [of
      "\<lparr>prompt_toks = [1, 2, 3], prompt_decode_ok = True,
      steps = (\<lambda>i. \<lparr>stop_requested = False, sampled = 7, decode_ok = True\<rparr>),
      is_eos_token = (\<lambda>t. t = 2), decode_token = (\<lambda>t. ''a''),
      duration_ms = (5::real), tokens_per_sec = (\<lambda>n ms. 200)\<rparr>"
      "\<lparr>max_tokens = 4, stop_sequences = [''</s>'']\<rparr>" False
      "\<lparr>initialized = True, n_ctx = 2, token_history = [9], n_past = 1, backend = [],
      stop_flag = False,
      stats = \<lparr>tokens_generated = 4, generation_time_ms = 8, tokens_per_second = 500,
                prompt_tokens = 1, context_tokens = 5\<rparr>\<rparr>"]
  by (simp add: size_t_of_int_def int_of_size_t_def)

text \<open>
  C6, the claim as written, refuted: a three-token prompt against \<open>n_ctx = 2\<close> raises
  ContextOverflow, and \<^verbatim>\<open>stats.prompt_tokens\<close>, 1 before the call, is 3 after it.
\<close>

theorem generate_stream_overflow_stats_counterexample:
  "fst (generate_stream
     \<lparr>prompt_toks = [1, 2, 3], prompt_decode_ok = True,
      steps = (\<lambda>i. \<lparr>stop_requested = False, sampled = 7, decode_ok = True\<rparr>),
      is_eos_token = (\<lambda>t. t = 2), decode_token = (\<lambda>t. ''a''),
      duration_ms = (5::real), tokens_per_sec = (\<lambda>n ms. 200)\<rparr>
     \<lparr>max_tokens = 4, stop_sequences = [''</s>'']\<rparr> False
     \<lparr>initialized = True, n_ctx = 2, token_history = [9], n_past = 1, backend = [],
      stop_flag = False,
      stats = \<lparr>tokens_generated = 4, generation_time_ms = 8, tokens_per_second = 500,
                prompt_tokens = 1, context_tokens = 5\<rparr>\<rparr>) = Inl ContextOverflow \<and>
   stats (fst (snd (generate_stream
     \<lparr>prompt_toks = [1, 2, 3], prompt_decode_ok = True,
      steps = (\<lambda>i. \<lparr>stop_requested = False, sampled = 7, decode_ok = True\<rparr>),
      is_eos_token = (\<lambda>t. t = 2), decode_token = (\<lambda>t. ''a''),
      duration_ms = (5::real), tokens_per_sec = (\<lambda>n ms. 200)\<rparr>
     \<lparr>max_tokens = 4, stop_sequences = [''</s>'']\<rparr> False
     \<lparr>initialized = True, n_ctx = 2, token_history = [9], n_past = 1, backend = [],
      stop_flag = False,
      stats = \<lparr>tokens_generated = 4, generation_time_ms = 8, tokens_per_second = 500,
                prompt_tokens = 1, context_tokens = 5\<rparr>\<rparr>)))
   \<noteq> \<lparr>tokens_generated = 4, generation_time_ms = 8, tokens_per_second = 500,
       prompt_tokens = 1, context_tokens = 5\<rparr>"
  by (simp add: generate_stream_def size_t_of_int_def int_of_size_t_def Let_def)

section \<open>Claims about Sampler\<close>

text \<open>
  C3 (as amended). With \<open>temperature \<le> 0\<close> (so in particular with \<open>temperature = 0\<close>),
  on a non-empty logits array and in a run without NaN, \<^verbatim>\<open>Sampler::sample\<close> returns an
  index that holds a maximum of the logits as they are after the repetition,
  frequency and presence penalties, not of the input logits. When the penalty stage
  does nothing (\<open>repeat_penalty = 1\<close> or an empty \<open>last_tokens\<close>), that is an index
  holding a maximum of the input logits. The top-k and top-p filters still run and
  write to the array, but leave a maximum in place.
\<close>

theorem sample_greedy_argmax_of_penalized:
  assumes "temperature (sampler_config smp) \<le> fzero (ops env)"
    and "\<forall>x. neg_inf (ops env) \<le> x"
    and "sorts_descending (std_sort env)"
    and "p < length mem" and "mem ! p \<noteq> []" and "length (mem ! p) < 2 ^ 31"
  shows "\<exists>k l'. sample env smp mem p recent = Inr (int k, mem[p := l'], smp) \<and>
           k < length (mem ! p) \<and>
           (\<forall>j < length (mem ! p).
              apply_repetition_penalty (ops env) (sampler_config smp) (mem ! p) recent ! j
              \<le> apply_repetition_penalty (ops env) (sampler_config smp) (mem ! p) recent ! k) \<and>
           (repeat_penalty (sampler_config smp) = fone (ops env) \<or> recent = [] \<longrightarrow>
              (\<forall>j < length (mem ! p). mem ! p ! j \<le> mem ! p ! k))"
proof -
  obtain k l' where r: "sample_on env smp (mem ! p) recent = Inr (int k, l', smp)"
    and k: "k < length (mem ! p)"
    and mx: "\<forall>j < length (mem ! p).
              apply_repetition_penalty (ops env) (sampler_config smp) (mem ! p) recent ! j
              \<le> apply_repetition_penalty (ops env) (sampler_config smp) (mem ! p) recent ! k"
    using sample_on_greedy [OF assms(1,2,3,5,6), of recent] by blast
  have s: "sample env smp mem p recent = Inr (int k, mem[p := l'], smp)"
    using r assms(4) by (simp add: sample_def vector_at_def)
  have "repeat_penalty (sampler_config smp) = fone (ops env) \<or> recent = [] \<Longrightarrow>
      apply_repetition_penalty (ops env) (sampler_config smp) (mem ! p) recent = mem ! p"
    by (auto simp: apply_repetition_penalty_def)
  then have "repeat_penalty (sampler_config smp) = fone (ops env) \<or> recent = [] \<longrightarrow>
      (\<forall>j < length (mem ! p). mem ! p ! j \<le> mem ! p ! k)"
    using mx by auto
  with s k mx show ?thesis by blast
qed

theorem sample_greedy_argmax_of_penalized_witness:
  "temperature (sampler_config
      \<lparr>sampler_config = \<lparr>temperature = Some 0, top_p = Some 1, top_k = 40,
          repeat_penalty = Some 1, repeat_last_n = 64, frequency_penalty = Some 0,
          presence_penalty = Some 0, seed = 42\<rparr>, rng = ()\<rparr>) \<le> fzero (ops exact_env) \<and>
   (\<forall>x. neg_inf (ops exact_env) \<le> x) \<and> sorts_descending (std_sort exact_env) \<and>
   sample exact_env
     \<lparr>sampler_config = \<lparr>temperature = Some 0, top_p = Some 1, top_k = 40,
          repeat_penalty = Some 1, repeat_last_n = 64, frequency_penalty = Some 0,
          presence_penalty = Some 0, seed = 42\<rparr>, rng = ()\<rparr>
     [[Some (1 / 10), Some (5 / 10), Some (2 / 10), Some (9 / 10), Some (3 / 10)]] 0 []
   = Inr (3, [[Some (1 / 10), Some (5 / 10), Some (2 / 10), Some (9 / 10), Some (3 / 10)]],
     \<lparr>sampler_config = \<lparr>temperature = Some 0, top_p = Some 1, top_k = 40,
          repeat_penalty = Some 1, repeat_last_n = 64, frequency_penalty = Some 0,
          presence_penalty = Some 0, seed = 42\<rparr>, rng = ()\<rparr>)"
proof -
  have a: "temperature (sampler_config
      \<lparr>sampler_config = \<lparr>temperature = Some 0, top_p = Some 1, top_k = 40,
          repeat_penalty = Some 1, repeat_last_n = 64, frequency_penalty = Some 0,
          presence_penalty = Some 0, seed = 42\<rparr>, rng = ()\<rparr>) \<le> fzero (ops exact_env)"
    by (simp add: exact_env_def exact_ops_def)
  have b: "\<forall>x. neg_inf (ops exact_env) \<le> x" by (simp add: exact_env_def exact_ops_def)
  have c: "sorts_descending (std_sort exact_env)" by (simp add: exact_env_def sort_desc_sorts)
  have d: "0 < length [[Some (1 / 10), Some (5 / 10), Some (2 / 10), Some (9 / 10), Some (3 / 10 :: real)]]"
    by simp
  have e: "[[Some (1 / 10), Some (5 / 10), Some (2 / 10), Some (9 / 10), Some (3 / 10 :: real)]] ! 0 \<noteq> []"
    by simp
  have f: "length ([[Some (1 / 10), Some (5 / 10), Some (2 / 10), Some (9 / 10), Some (3 / 10 :: real)]] ! 0) < 2 ^ 31"
    by simp
  show ?thesis
    using a b c sample_greedy_argmax_of_penalized [OF a b c d e f, of "[]"]
    by (simp add: sample_def sample_on_def vector_at_def exact_env_def exact_ops_def
        apply_repetition_penalty_def apply_temperature_def apply_top_k_def apply_top_p_def
        max_element_def int_of_size_t_def Let_def)
qed

text \<open>
  C3, the claim as written, refuted. Logits \<open>[1, 4, 2, 6, 3]\<close>, \<open>temperature = 0\<close>,
  \<open>repeat_penalty = 2\<close>, \<open>last_tokens = [3]\<close>, top-k and top-p switched off: the penalty
  stage halves the logit of token 3 to 3, and \<^verbatim>\<open>sample\<close> returns index 1, while the
  maximum of the input logits is at index 3. All values are exact in binary32.
\<close>

theorem sample_greedy_counterexample:
  "sample exact_env
     \<lparr>sampler_config = \<lparr>temperature = Some 0, top_p = Some 1, top_k = 0,
          repeat_penalty = Some 2, repeat_last_n = 64, frequency_penalty = Some 0,
          presence_penalty = Some 0, seed = 42\<rparr>, rng = ()\<rparr>
     [[Some 1, Some 4, Some 2, Some 6, Some 3]] 0 [3]
   = Inr (1, [[Some 1, Some 4, Some 2, Some 3, Some 3]],
     \<lparr>sampler_config = \<lparr>temperature = Some 0, top_p = Some 1, top_k = 0,
          repeat_penalty = Some 2, repeat_last_n = 64, frequency_penalty = Some 0,
          presence_penalty = Some 0, seed = 42\<rparr>, rng = ()\<rparr>) \<and>
   max_element [Some 1, Some 4, Some 2, Some 6, Some (3 :: real)] = 3"
  by (simp add: sample_def sample_on_def vector_at_def exact_env_def exact_ops_def
      apply_repetition_penalty_def apply_temperature_def apply_top_k_def apply_top_p_def
      max_element_def int_of_size_t_def Let_def penalty_window_def penalize_token_def lift2_def)



end
